theory Spec2Isabelle
  imports Main
begin

section \<open>The Cascade data model\<close>

text \<open>
  Package \<open>cascade\<close>: a tree of Cascades that tracks goroutines and shuts them down, children
  before parents. The model is an interleaving semantics of the Go code. A \<open>*Cascade\<close> is an
  address into a store of Cascade structs; goroutines, wait groups and \<open>context.Context\<close>
  values are addresses of their own. Actions (\<open>func()\<close> values handed to \<open>DoOnKill\<close>) are opaque
  labels: running one is an event of the trace and has no effect on the Cascade structs.

  Every field that changes after a Cascade is published is read and written under its mutex
  (\<open>parent\<close> and the three channel values never change), so an execution of the program is an
  interleaving of its critical sections, channel operations and wait-group operations: each
  of these is one atomic step of one goroutine.

  The helpers \<open>Wrap\<close>, \<open>WrapInLoop\<close>, \<open>WrapInLoopWithBool\<close>, \<open>Go\<close>, \<open>GoInLoop\<close> and
  \<open>GoInLoopWithBool\<close> are \<open>ChildCascade\<close>, \<open>Mark\<close> and \<open>UnMark\<close> around a function of the caller,
  and \<open>IsDead\<close>, \<open>Alive\<close>, \<open>Dying\<close>, \<open>Dead\<close> and \<open>Done\<close> only read; a client goroutine of the model
  makes the calls they are built from.
\<close>

type_synonym cid = nat
type_synonym tid = nat
type_synonym wgid = nat
type_synonym aid = nat
type_synonym ctxid = nat

text \<open>\<open>errors.New("cascade: error already set")\<close> and the errors a caller passes in.\<close>

datatype error = ErrorAlreadySet | UserError nat

text \<open>
  The struct \<open>Cascade\<close>. A channel that is only ever closed is a flag (closed or not); each of
  \<open>dying\<close>, \<open>dead\<close> and \<open>done\<close> is closed inside its \<open>sync.Once\<close>, so the flag also is the state
  of that Once. \<open>children\<close> and \<open>trackedCtx\<close> are Go maps that the code sets to \<open>nil\<close>: \<open>None\<close> is
  the nil map. The mutexes are not fields of the model: every critical section of the source
  is one atomic step below.
\<close>

record Cascade =
  parent :: "cid option"
  children :: "cid list option"
  dying_ch :: bool
  dead_ch :: bool
  done_ch :: bool
  isDead :: bool
  actions :: "aid list"
  onceActions :: bool
  tracked :: int
  ctx :: "ctxid option"
  trackedCtx :: "(ctxid \<times> ctxid) list option"
  err :: "error option"

definition RootCascade :: Cascade where
  "RootCascade =
     \<lparr>parent = None, children = Some [], dying_ch = False, dead_ch = False, done_ch = False,
      isDead = False, actions = [], onceActions = False, tracked = 0, ctx = None,
      trackedCtx = Some [], err = None\<rparr>"

text \<open>
  Modelled from the spec: the external cancellation primitive (Go's \<open>context\<close> package, not
  part of the repository): a token with a latched cancelled event, an imperative cancel and a
  derivation operation. A derived token is done when it or one of its ancestors was cancelled.
  Token 0 is \<open>context.Background()\<close>, whose \<open>Done()\<close> is nil.
\<close>

record token =
  tparent :: "ctxid option"
  cancelled :: bool

definition background :: token where
  "background = \<lparr>tparent = None, cancelled = False\<rparr>"

fun ctx_done_fuel :: "nat \<Rightarrow> (ctxid \<Rightarrow> token) \<Rightarrow> ctxid \<Rightarrow> bool" where
  "ctx_done_fuel 0 toks x = cancelled (toks x)"
| "ctx_done_fuel (Suc n) toks x =
     (cancelled (toks x) \<or>
      (case tparent (toks x) of None \<Rightarrow> False | Some p \<Rightarrow> ctx_done_fuel n toks p))"

section \<open>Goroutines as instruction lists\<close>

text \<open>
  The program points of the shutdown driver (the body of \<open>Kill\<close>/\<open>Cancel\<close> after the test-and-set,
  followed by the body of \<open>closeAndClean\<close>), one per critical section or blocking operation:
  \<^item> \<open>Fanout\<close>: under \<open>muChildren\<close>, \<open>wg.Add(1)\<close> and a goroutine for every child;
  \<^item> \<open>WgWait\<close>: \<open>wg.Wait()\<close>;
  \<^item> \<open>ClearChildren\<close>: \<open>c.children = nil\<close> under \<open>muChildren\<close>;
  \<^item> \<open>CloseDying\<close>: \<open>close(c.dying)\<close> inside \<open>onceDying\<close>;
  \<^item> \<open>Gate\<close>: under the read lock of \<open>muTracked\<close>, \<open>close(c.dead)\<close> if \<open>tracked == 0\<close>;
  \<^item> \<open>WaitDead\<close>: \<open>c.Wait()\<close> otherwise;
  \<^item> \<open>RunActions\<close>: \<open>if actions { c.runActions() }\<close>;
  \<^item> \<open>CancelTracked\<close>: \<open>c.cancelTrackedContexts()\<close>;
  \<^item> \<open>Detach\<close>: \<open>c.parent.removeChild(c)\<close> if there is a parent;
  \<^item> \<open>CloseDone\<close>: \<open>close(c.done)\<close> inside \<open>onceDone\<close>.
\<close>

datatype phase =
    Fanout
  | WgWait wgid
  | ClearChildren
  | CloseDying
  | Gate
  | WaitDead
  | RunActions
  | CancelTracked
  | Detach
  | CloseDone

datatype retval = Void | RetErr "error option" | RetCtx ctxid

text \<open>
  A call of the public interface, as a client goroutine makes it. \<open>CtxWithCancel\<close> and
  \<open>CtxCancel\<close> are the client's own use of \<open>context.WithCancel\<close> and of the cancel function
  it returned.
\<close>

datatype call =
    NewRoot
  | ChildCascade cid
  | Mark cid
  | UnMark cid
  | Hold cid
  | Wait cid
  | WaitDone cid
  | DoOnKill cid aid
  | DoFirstOnKill cid aid
  | Kill cid
  | Cancel cid
  | KillWithError cid "error option"
  | CancelWithError cid "error option"
  | KillAll cid
  | CancelAll cid
  | KillAllWithError cid "error option"
  | CancelAllWithError cid "error option"
  | Error cid
  | WithContext ctxid
  | ChildWithContext cid ctxid
  | Context cid "ctxid option"
  | CtxWithCancel ctxid
  | CtxCancel ctxid

text \<open>
  A goroutine is the list of instructions it still has to execute: calls, and the program
  points inside a call that has begun. \<open>Return f v\<close> is the return of the call \<open>f\<close> with
  result \<open>v\<close>.
\<close>

datatype instr =
    Call call
  | TrackedCheck cid
  | TrackedGate cid
  | Shutdown cid bool phase
  | WgDone wgid
  | Return call retval
  | CtxLookup cid ctxid call
  | LinkWith cid ctxid call
  | NewTracked cid ctxid call
  | LinkCheck cid ctxid ctxid
  | LinkInsert cid ctxid ctxid
  | Watch cid ctxid

text \<open>
  The trace is a history of what happened, newest event first: the winning test-and-set on
  \<open>isDead\<close> (by which goroutine, and whether it was \<open>Kill\<close>), the closing of the three channels,
  the registration of an action (\<open>True\<close>: at the head), one run of \<open>runActions\<close> with the actions
  it executed in order, the recording of a derived context in \<open>trackedCtx\<close>, and returns.
\<close>

datatype event =
    EvBegin tid cid bool
  | EvDying cid
  | EvDead cid
  | EvDone cid
  | EvHook cid aid bool
  | EvActions cid "aid list"
  | EvTracked cid ctxid
  | EvReturn tid call retval

record state =
  heap :: "cid \<Rightarrow> Cascade"
  nextc :: nat
  tokens :: "ctxid \<Rightarrow> token"
  nextx :: nat
  wgs :: "wgid \<Rightarrow> nat"
  nextw :: nat
  threads :: "instr list list"
  trace :: "event list"
  panicked :: bool

definition ctx_done :: "state \<Rightarrow> ctxid \<Rightarrow> bool" where
  "ctx_done s x = ctx_done_fuel (nextx s) (tokens s) x"

definition upd :: "cid \<Rightarrow> (Cascade \<Rightarrow> Cascade) \<Rightarrow> state \<Rightarrow> state" where
  "upd c f s = s\<lparr>heap := (heap s)(c := f (heap s c))\<rparr>"

definition log :: "event \<Rightarrow> state \<Rightarrow> state" where
  "log e s = s\<lparr>trace := e # trace s\<rparr>"

definition spawn :: "instr list list \<Rightarrow> state \<Rightarrow> state" where
  "spawn gs s = s\<lparr>threads := threads s @ gs\<rparr>"

definition panic :: "state \<Rightarrow> state" where
  "panic s = s\<lparr>panicked := True\<rparr>"

text \<open>\<open>c.onceDying.Do(func() { close(c.dying) })\<close> and its two siblings.\<close>

definition close_dying :: "cid \<Rightarrow> state \<Rightarrow> state" where
  "close_dying c s =
     (if dying_ch (heap s c) then s else log (EvDying c) (upd c (\<lambda>r. r\<lparr>dying_ch := True\<rparr>) s))"

definition close_dead :: "cid \<Rightarrow> state \<Rightarrow> state" where
  "close_dead c s =
     (if dead_ch (heap s c) then s else log (EvDead c) (upd c (\<lambda>r. r\<lparr>dead_ch := True\<rparr>) s))"

definition close_done :: "cid \<Rightarrow> state \<Rightarrow> state" where
  "close_done c s =
     (if done_ch (heap s c) then s else log (EvDone c) (upd c (\<lambda>r. r\<lparr>done_ch := True\<rparr>) s))"

text \<open>The cancel function of a derived context, and \<open>context.WithCancel\<close>.\<close>

definition cancel_tok :: "ctxid \<Rightarrow> state \<Rightarrow> state" where
  "cancel_tok y s = s\<lparr>tokens := (tokens s)(y := (tokens s y)\<lparr>cancelled := True\<rparr>)\<rparr>"

definition new_tok :: "ctxid \<Rightarrow> state \<Rightarrow> state" where
  "new_tok x s =
     s\<lparr>tokens := (tokens s)(nextx s := \<lparr>tparent = Some x, cancelled = False\<rparr>),
       nextx := Suc (nextx s)\<rparr>"

text \<open>Allocation of a fresh struct by \<open>RootCascade()\<close>, with the parent link set.\<close>

definition alloc :: "cid option \<Rightarrow> state \<Rightarrow> state" where
  "alloc p s = s\<lparr>heap := (heap s)(nextc s := RootCascade\<lparr>parent := p\<rparr>), nextc := Suc (nextc s)\<rparr>"

text \<open>
  \<open>runActions\<close>: inside \<open>onceActions\<close> and under \<open>muActions\<close>, every action of the slice in
  order.
\<close>

definition runActions :: "cid \<Rightarrow> state \<Rightarrow> state" where
  "runActions c s =
     (if onceActions (heap s c) then s
      else log (EvActions c (actions (heap s c))) (upd c (\<lambda>r. r\<lparr>onceActions := True\<rparr>) s))"

text \<open>\<open>removeChild\<close>: \<open>delete\<close> on the parent's map (no effect on a nil map).\<close>

definition removeChild :: "cid \<Rightarrow> cid \<Rightarrow> state \<Rightarrow> state" where
  "removeChild p child s = upd p (\<lambda>r. r\<lparr>children := map_option (removeAll child) (children r)\<rparr>) s"

text \<open>\<open>cancelTrackedContexts\<close>: cancel every tracked context, then set the map to nil.\<close>

definition cancelTrackedContexts :: "cid \<Rightarrow> state \<Rightarrow> state" where
  "cancelTrackedContexts c s =
     upd c (\<lambda>r. r\<lparr>trackedCtx := None\<rparr>)
       (foldr (\<lambda>kv. cancel_tok (snd kv))
          (case trackedCtx (heap s c) of None \<Rightarrow> [] | Some m \<Rightarrow> m) s)"

text \<open>
  The second half of \<open>linkTrackedContext\<close>, under \<open>muCtx\<close>: store the derived context under
  its parent's key (a panic on the nil map), then delete every entry whose context is done.
\<close>

definition link_insert :: "cid \<Rightarrow> ctxid \<Rightarrow> ctxid \<Rightarrow> state \<Rightarrow> state" where
  "link_insert c x y s =
     (case trackedCtx (heap s c) of
        None \<Rightarrow> panic s
      | Some m \<Rightarrow>
          log (EvTracked c y)
            (upd c (\<lambda>r. r\<lparr>trackedCtx :=
               Some (filter (\<lambda>kv. \<not> ctx_done s (snd kv)) ((x, y) # filter (\<lambda>kv. fst kv \<noteq> x) m))\<rparr>) s))"

section \<open>One step of one goroutine\<close>

text \<open>
  A step of a goroutine executes its first instruction: it returns the instructions that
  take the place of that instruction, and the new state. \<open>None\<close> is a goroutine that cannot
  move (it waits on a channel or on a wait group).

  The driver after it won the test-and-set: the rest of \<open>Kill\<close> (\<open>b = True\<close>) or \<open>Cancel\<close>
  (\<open>b = False\<close>), then \<open>closeAndClean(b)\<close>. The source writes \<open>Kill\<close> and \<open>Cancel\<close> out twice;
  the two bodies differ in the call made on each child and in the argument of
  \<open>closeAndClean\<close>, which is the flag \<open>b\<close> here. The wait group of a driver is local to it:
  the fan-out gives it a fresh address whose counter is the number of children.
\<close>

fun shutdown_step :: "cid \<Rightarrow> bool \<Rightarrow> phase \<Rightarrow> state \<Rightarrow> (instr list \<times> state) option" where
  "shutdown_step c b Fanout s =
     (let kids = (case children (heap s c) of None \<Rightarrow> [] | Some ks \<Rightarrow> ks);
          w = nextw s
      in Some ([Shutdown c b (WgWait w)],
           spawn (map (\<lambda>ch. [Call (if b then Kill ch else Cancel ch), WgDone w]) kids)
             (s\<lparr>wgs := (wgs s)(w := length kids), nextw := Suc w\<rparr>)))"
| "shutdown_step c b (WgWait w) s =
     (if wgs s w = 0 then Some ([Shutdown c b ClearChildren], s) else None)"
| "shutdown_step c b ClearChildren s =
     Some ([Shutdown c b CloseDying], upd c (\<lambda>r. r\<lparr>children := None\<rparr>) s)"
| "shutdown_step c b CloseDying s = Some ([Shutdown c b Gate], close_dying c s)"
| "shutdown_step c b Gate s =
     (if tracked (heap s c) = 0 then Some ([Shutdown c b RunActions], close_dead c s)
      else Some ([Shutdown c b WaitDead], s))"
| "shutdown_step c b WaitDead s =
     (if dead_ch (heap s c) then Some ([Shutdown c b RunActions], s) else None)"
| "shutdown_step c b RunActions s =
     Some ([Shutdown c b CancelTracked], if b then runActions c s else s)"
| "shutdown_step c b CancelTracked s = Some ([Shutdown c b Detach], cancelTrackedContexts c s)"
| "shutdown_step c b Detach s =
     Some ([Shutdown c b CloseDone],
       case parent (heap s c) of None \<Rightarrow> s | Some p \<Rightarrow> removeChild p c s)"
| "shutdown_step c b CloseDone s =
     Some ([Return (if b then Kill c else Cancel c) Void], close_done c s)"

text \<open>The test-and-set on \<open>isDead\<close> under \<open>muDead\<close> that opens \<open>Kill\<close> and \<open>Cancel\<close>.\<close>

definition shutdown_enter :: "tid \<Rightarrow> cid \<Rightarrow> bool \<Rightarrow> state \<Rightarrow> instr list \<times> state" where
  "shutdown_enter t c b s =
     (if \<not> isDead (heap s c)
      then ([Shutdown c b Fanout], log (EvBegin t c b) (upd c (\<lambda>r. r\<lparr>isDead := True\<rparr>) s))
      else ([Return (if b then Kill c else Cancel c) Void], s))"

text \<open>The body shared by \<open>KillWithError\<close> and \<open>CancelWithError\<close>, under \<open>muErr\<close>.\<close>

definition with_error :: "cid \<Rightarrow> bool \<Rightarrow> error option \<Rightarrow> state \<Rightarrow> instr list \<times> state" where
  "with_error c b e s =
     (let f = (if b then KillWithError c e else CancelWithError c e) in
      if err (heap s c) \<noteq> None
      then ([Return f (RetErr (Some ErrorAlreadySet))], s)
      else ([Call (if b then Kill c else Cancel c), Return f (RetErr None)],
            upd c (\<lambda>r. r\<lparr>err := e\<rparr>) s))"

text \<open>
  The Cascade a call or a program point dereferences. A goroutine whose next instruction
  names a Cascade that has not been created yet cannot move.
\<close>

fun call_target :: "call \<Rightarrow> cid option" where
  "call_target NewRoot = None"
| "call_target (ChildCascade c) = Some c"
| "call_target (Mark c) = Some c"
| "call_target (UnMark c) = Some c"
| "call_target (Hold c) = Some c"
| "call_target (Wait c) = Some c"
| "call_target (WaitDone c) = Some c"
| "call_target (DoOnKill c a) = Some c"
| "call_target (DoFirstOnKill c a) = Some c"
| "call_target (Kill c) = Some c"
| "call_target (Cancel c) = Some c"
| "call_target (KillWithError c e) = Some c"
| "call_target (CancelWithError c e) = Some c"
| "call_target (KillAll c) = Some c"
| "call_target (CancelAll c) = Some c"
| "call_target (KillAllWithError c e) = Some c"
| "call_target (CancelAllWithError c e) = Some c"
| "call_target (Error c) = Some c"
| "call_target (WithContext x) = None"
| "call_target (ChildWithContext c x) = Some c"
| "call_target (Context c xo) = Some c"
| "call_target (CtxWithCancel x) = None"
| "call_target (CtxCancel x) = None"

fun target :: "instr \<Rightarrow> cid option" where
  "target (Call f) = call_target f"
| "target (TrackedCheck c) = Some c"
| "target (TrackedGate c) = Some c"
| "target (Shutdown c b ph) = Some c"
| "target (WgDone w) = None"
| "target (Return f v) = None"
| "target (CtxLookup c x f) = Some c"
| "target (LinkWith c x f) = Some c"
| "target (NewTracked c x f) = Some c"
| "target (LinkCheck c x y) = Some c"
| "target (LinkInsert c x y) = Some c"
| "target (Watch c x) = Some c"

text \<open>
  \<open>ChildCascade\<close>: a fresh struct with the parent link, then the insertion into the parent's
  \<open>children\<close> map under \<open>muChildren\<close>: an assignment to an entry of a nil map panics.
\<close>

definition childCascade :: "cid \<Rightarrow> state \<Rightarrow> state" where
  "childCascade c s =
     (let child = nextc s; s1 = alloc (Some c) s in
      case children (heap s1 c) of
        None \<Rightarrow> panic s1
      | Some ks \<Rightarrow> upd c (\<lambda>r. r\<lparr>children := Some (ks @ [child])\<rparr>) s1)"

text \<open>The first step of each call of the public interface.\<close>

fun exec_call :: "tid \<Rightarrow> call \<Rightarrow> state \<Rightarrow> (instr list \<times> state) option" where
  "exec_call t NewRoot s = Some ([], alloc None s)"
| "exec_call t (ChildCascade c) s = Some ([], childCascade c s)"
| "exec_call t (Mark c) s =
     Some ([TrackedCheck c], upd c (\<lambda>r. r\<lparr>tracked := tracked r + 1\<rparr>) s)"
| "exec_call t (UnMark c) s =
     Some ([TrackedCheck c], upd c (\<lambda>r. r\<lparr>tracked := tracked r - 1\<rparr>) s)"
| "exec_call t (Hold c) s = (if dying_ch (heap s c) then Some ([], s) else None)"
| "exec_call t (Wait c) s = (if dead_ch (heap s c) then Some ([], s) else None)"
| "exec_call t (WaitDone c) s = (if done_ch (heap s c) then Some ([], s) else None)"
| "exec_call t (DoOnKill c a) s =
     Some ([], log (EvHook c a False) (upd c (\<lambda>r. r\<lparr>actions := actions r @ [a]\<rparr>) s))"
| "exec_call t (DoFirstOnKill c a) s =
     Some ([], log (EvHook c a True) (upd c (\<lambda>r. r\<lparr>actions := [a] @ actions r\<rparr>) s))"
| "exec_call t (Kill c) s = Some (shutdown_enter t c True s)"
| "exec_call t (Cancel c) s = Some (shutdown_enter t c False s)"
| "exec_call t (KillWithError c e) s = Some (with_error c True e s)"
| "exec_call t (CancelWithError c e) s = Some (with_error c False e s)"
| "exec_call t (KillAll c) s =
     Some ([Call (case parent (heap s c) of Some p \<Rightarrow> KillAll p | None \<Rightarrow> Kill c),
            Return (KillAll c) Void], s)"
| "exec_call t (CancelAll c) s =
     Some ([Call (case parent (heap s c) of Some p \<Rightarrow> CancelAll p | None \<Rightarrow> Cancel c),
            Return (CancelAll c) Void], s)"
| "exec_call t (KillAllWithError c e) s =
     Some ([Call (case parent (heap s c) of
                    Some p \<Rightarrow> KillAllWithError p e | None \<Rightarrow> KillWithError c e),
            Return (KillAllWithError c e) Void], s)"
| "exec_call t (CancelAllWithError c e) s =
     Some ([Call (case parent (heap s c) of
                    Some p \<Rightarrow> CancelAllWithError p e | None \<Rightarrow> CancelWithError c e),
            Return (CancelAllWithError c e) Void], s)"
| "exec_call t (Error c) s = Some ([Return (Error c) (RetErr (err (heap s c)))], s)"
| "exec_call t (WithContext x) s =
     (if x < nextx s then Some ([LinkWith (nextc s) x (WithContext x)], alloc None s) else None)"
| "exec_call t (ChildWithContext c x) s =
     (if x < nextx s
      then Some ([LinkWith (nextc s) x (ChildWithContext c x)], childCascade c s)
      else None)"
| "exec_call t (Context c xo) s =
     (case xo of
        None \<Rightarrow>
          (case ctx (heap s c) of
             None \<Rightarrow> Some ([LinkWith c 0 (Context c None)], s)
           | Some x \<Rightarrow> Some ([Call (Context c (Some x))], s))
      | Some x \<Rightarrow>
          (if x < nextx s
           then Some ([if \<not> isDead (heap s c) then CtxLookup c x (Context c (Some x))
                       else NewTracked c x (Context c (Some x))], s)
           else None))"
| "exec_call t (CtxWithCancel x) s = (if x < nextx s then Some ([], new_tok x s) else None)"
| "exec_call t (CtxCancel x) s =
     (if 0 < x \<and> x < nextx s then Some ([], cancel_tok x s) else None)"

text \<open>
  The program points inside the calls: the second half of \<open>Mark\<close>/\<open>UnMark\<close> (\<open>IsDead()\<close>, then
  the test of \<open>tracked\<close> under the read lock), the driver, \<open>wg.Done()\<close>, returns, and the
  functions of context.go: the lookup in \<open>Context\<close>, \<open>linkWithContext\<close> (which starts the
  watcher goroutine and stores \<open>c.ctx\<close>), \<open>context.WithCancel\<close>, and the two halves of
  \<open>linkTrackedContext\<close>. The watcher's \<open>select\<close> has two cases; when both channels are closed
  the model takes the \<open>ctx.Done()\<close> case, whose \<open>Kill\<close> then finds \<open>isDead\<close> set.
\<close>

fun exec :: "tid \<Rightarrow> instr \<Rightarrow> state \<Rightarrow> (instr list \<times> state) option" where
  "exec t (Call f) s = exec_call t f s"
| "exec t (TrackedCheck c) s = Some (if isDead (heap s c) then [TrackedGate c] else [], s)"
| "exec t (TrackedGate c) s = Some ([], if tracked (heap s c) = 0 then close_dead c s else s)"
| "exec t (Shutdown c b ph) s = shutdown_step c b ph s"
| "exec t (WgDone w) s = Some ([], s\<lparr>wgs := (wgs s)(w := wgs s w - 1)\<rparr>)"
| "exec t (Return f v) s = Some ([], log (EvReturn t f v) s)"
| "exec t (LinkWith c x f) s =
     Some ([NewTracked c x f],
       spawn (if x \<noteq> 0 then [[Watch c x]] else []) (upd c (\<lambda>r. r\<lparr>ctx := Some x\<rparr>) s))"
| "exec t (Watch c x) s =
     (if ctx_done s x then Some ([Call (Kill c)], s)
      else if dying_ch (heap s c) then Some ([], s)
      else None)"
| "exec t (CtxLookup c x f) s =
     (case map_of (case trackedCtx (heap s c) of None \<Rightarrow> [] | Some m \<Rightarrow> m) x of
        Some y \<Rightarrow>
          (if ctx_done s y
           then Some ([NewTracked c x f],
                  upd c (\<lambda>r. r\<lparr>trackedCtx :=
                    map_option (filter (\<lambda>kv. fst kv \<noteq> x)) (trackedCtx r)\<rparr>) s)
           else Some ([Return f (RetCtx y)], s))
      | None \<Rightarrow> Some ([NewTracked c x f], s))"
| "exec t (NewTracked c x f) s =
     Some ([LinkCheck c x (nextx s), Return f (RetCtx (nextx s))], new_tok x s)"
| "exec t (LinkCheck c x y) s =
     (if isDead (heap s c) then Some ([], cancel_tok y s) else Some ([LinkInsert c x y], s))"
| "exec t (LinkInsert c x y) s = Some ([], link_insert c x y s)"

text \<open>
  The scheduler lets goroutine \<open>t\<close> make one step. After a panic nothing moves: a Go program
  whose goroutine panics is terminated.
\<close>

definition step :: "tid \<Rightarrow> state \<Rightarrow> state option" where
  "step t s =
     (if panicked s \<or> length (threads s) \<le> t then None
      else case threads s ! t of
             [] \<Rightarrow> None
           | i # k \<Rightarrow>
               (if (case target i of None \<Rightarrow> True | Some c \<Rightarrow> c < nextc s)
                then (case exec t i s of
                        None \<Rightarrow> None
                      | Some (new, s1) \<Rightarrow> Some (s1\<lparr>threads := (threads s1)[t := new @ k]\<rparr>))
                else None))"

text \<open>
  A schedule is the list of goroutines the scheduler picks, in order. Picking a goroutine
  that cannot move leaves the state as it is.
\<close>

fun run :: "tid list \<Rightarrow> state \<Rightarrow> state" where
  "run [] s = s"
| "run (t # ts) s = run ts (case step t s of None \<Rightarrow> s | Some s' \<Rightarrow> s')"

text \<open>
  The start of a program: no Cascade exists, only \<open>context.Background()\<close> does, and every
  goroutine is a list of calls of the public interface.
\<close>

definition start :: "call list list \<Rightarrow> state" where
  "start gs =
     \<lparr>heap = (\<lambda>_. RootCascade), nextc = 0, tokens = (\<lambda>_. background), nextx = 1,
      wgs = (\<lambda>_. 0), nextw = 0, threads = map (map Call) gs, trace = [], panicked = False\<rparr>"

section \<open>Invariants of the reachable states\<close>

text \<open>The program points of the driver, numbered in program order.\<close>

fun rank :: "phase \<Rightarrow> nat" where
  "rank Fanout = 0"
| "rank (WgWait w) = 1"
| "rank ClearChildren = 2"
| "rank CloseDying = 3"
| "rank Gate = 4"
| "rank WaitDead = 5"
| "rank RunActions = 6"
| "rank CancelTracked = 7"
| "rank Detach = 8"
| "rank CloseDone = 9"

text \<open>
  What holds of a goroutine that stands at a program point. A driver of \<open>c\<close> won the
  test-and-set on \<open>c\<close> itself (the trace says so); done is not raised before its last step,
  dying is raised exactly from \<open>Gate\<close> on, \<open>children\<close> is nil from \<open>CloseDying\<close> on, dead is
  raised from \<open>RunActions\<close> on, the actions have run exactly when the driver is that of \<open>Kill\<close>
  and past \<open>RunActions\<close>, and \<open>trackedCtx\<close> is nil from \<open>Detach\<close> on. The second half of
  \<open>Mark\<close>/\<open>UnMark\<close> reaches its test of \<open>tracked\<close> only when it has read \<open>isDead\<close> as true. A
  driver's program point is the first instruction of its goroutine, never a later one.
\<close>

fun quiet :: "instr \<Rightarrow> bool" where
  "quiet (Shutdown c b ph) = False"
| "quiet i = True"

fun pc_ok :: "state \<Rightarrow> tid \<Rightarrow> instr \<Rightarrow> bool" where
  "pc_ok s t (Shutdown c b ph) =
     (c < nextc s \<and> isDead (heap s c) \<and> EvBegin t c b \<in> set (trace s) \<and>
      \<not> done_ch (heap s c) \<and>
      (dying_ch (heap s c) \<longleftrightarrow> 4 \<le> rank ph) \<and>
      (3 \<le> rank ph \<longrightarrow> children (heap s c) = None) \<and>
      (6 \<le> rank ph \<longrightarrow> dead_ch (heap s c)) \<and>
      (onceActions (heap s c) \<longleftrightarrow> b \<and> 7 \<le> rank ph) \<and>
      (8 \<le> rank ph \<longrightarrow> trackedCtx (heap s c) = None))"
| "pc_ok s t (TrackedGate c) = isDead (heap s c)"
| "pc_ok s t i = True"

text \<open>
  A Cascade that has not been created is as \<open>RootCascade()\<close> will return it, and a parent was
  created before its child.
\<close>

definition fresh_above :: "state \<Rightarrow> bool" where
  "fresh_above s = (\<forall>c. nextc s \<le> c \<longrightarrow> heap s c = RootCascade)"

definition parents_below :: "state \<Rightarrow> bool" where
  "parents_below s = (\<forall>c p. parent (heap s c) = Some p \<longrightarrow> p < c)"

text \<open>
  The channels of one Cascade: dying, dead and the run of the actions come after the write of
  \<open>isDead\<close>; dying comes after the child set was cleared; done comes after dying and dead,
  and after both maps were set to nil.
\<close>

definition flags_ok :: "state \<Rightarrow> bool" where
  "flags_ok s =
     (\<forall>c. (dying_ch (heap s c) \<longrightarrow> isDead (heap s c) \<and> children (heap s c) = None) \<and>
          (dead_ch (heap s c) \<longrightarrow> isDead (heap s c)) \<and>
          (onceActions (heap s c) \<longrightarrow> isDead (heap s c)) \<and>
          (done_ch (heap s c) \<longrightarrow>
             dying_ch (heap s c) \<and> dead_ch (heap s c) \<and> children (heap s c) = None \<and>
             trackedCtx (heap s c) = None))"

definition pcs_ok :: "state \<Rightarrow> bool" where
  "pcs_ok s =
     (\<forall>t < length (threads s).
        list_all (pc_ok s t) (threads s ! t) \<and> list_all quiet (tl (threads s ! t)))"

text \<open>The test-and-set on a Cascade is won at most once, and \<open>isDead\<close> is set from then on.\<close>

definition begins_ok :: "state \<Rightarrow> bool" where
  "begins_ok s =
     (\<forall>t c b. EvBegin t c b \<in> set (trace s) \<longrightarrow>
        isDead (heap s c) \<and>
        (\<forall>t' b'. EvBegin t' c b' \<in> set (trace s) \<longrightarrow> t' = t \<and> b' = b))"

definition inv :: "state \<Rightarrow> bool" where
  "inv s = (fresh_above s \<and> parents_below s \<and> flags_ok s \<and> pcs_ok s \<and> begins_ok s)"

text \<open>The instructions of a goroutine that a step spawns.\<close>

fun harmless :: "instr \<Rightarrow> bool" where
  "harmless (Shutdown c b ph) = False"
| "harmless (TrackedGate c) = False"
| "harmless i = True"

text \<open>The guard of a step: the Cascade the instruction dereferences exists.\<close>

definition allocated :: "state \<Rightarrow> instr \<Rightarrow> bool" where
  "allocated s i = (case target i of None \<Rightarrow> True | Some c \<Rightarrow> c < nextc s)"

text \<open>
  What a step never undoes: Cascades, goroutines and trace only grow; \<open>isDead\<close>, the three
  channels and \<open>onceActions\<close> stay set; a map that is nil stays nil; a parent link never
  changes.
\<close>

definition grows :: "state \<Rightarrow> state \<Rightarrow> bool" where
  "grows s s' =
     (nextc s \<le> nextc s' \<and> length (threads s) \<le> length (threads s') \<and>
      (\<exists>es. trace s' = es @ trace s) \<and>
      (\<forall>c. (isDead (heap s c) \<longrightarrow> isDead (heap s' c)) \<and>
           (dying_ch (heap s c) \<longrightarrow> dying_ch (heap s' c)) \<and>
           (dead_ch (heap s c) \<longrightarrow> dead_ch (heap s' c)) \<and>
           (done_ch (heap s c) \<longrightarrow> done_ch (heap s' c)) \<and>
           (onceActions (heap s c) \<longrightarrow> onceActions (heap s' c)) \<and>
           (c < nextc s \<longrightarrow> children (heap s c) = None \<longrightarrow> children (heap s' c) = None) \<and>
           (c < nextc s \<longrightarrow> trackedCtx (heap s c) = None \<longrightarrow> trackedCtx (heap s' c) = None) \<and>
           (c < nextc s \<longrightarrow> parent (heap s' c) = parent (heap s c))))"


section \<open>What the trace says about the actions\<close>

text \<open>
  The order of the actions of Cascade \<open>c\<close> that the registrations in a trace imply, in the
  spec's words: each prepend inserts at the current head, each append at the current tail.
  The trace is newest first, so the newest registration is applied last.
\<close>

fun hook_order :: "cid \<Rightarrow> event list \<Rightarrow> aid list" where
  "hook_order c [] = []"
| "hook_order c (EvHook c' a front # tr) =
     (if c' = c then (if front then a # hook_order c tr else hook_order c tr @ [a])
      else hook_order c tr)"
| "hook_order c (e # tr) = hook_order c tr"

text \<open>
  The action lists that \<open>runActions\<close> executed on \<open>c\<close>, one per execution, and the lists
  that the registrations up to each of those executions imply.
\<close>

fun runs :: "cid \<Rightarrow> event list \<Rightarrow> aid list list" where
  "runs c [] = []"
| "runs c (EvActions c' acts # tr) = (if c' = c then acts # runs c tr else runs c tr)"
| "runs c (e # tr) = runs c tr"

fun queued :: "cid \<Rightarrow> event list \<Rightarrow> aid list list" where
  "queued c [] = []"
| "queued c (EvActions c' acts # tr) =
     (if c' = c then hook_order c tr # queued c tr else queued c tr)"
| "queued c (e # tr) = queued c tr"

text \<open>The mode of the shutdown of \<open>c\<close>: \<open>Some True\<close> when \<open>Kill\<close> won the test-and-set.\<close>

fun mode :: "cid \<Rightarrow> event list \<Rightarrow> bool option" where
  "mode c [] = None"
| "mode c (EvBegin t c' b # tr) = (if c' = c then Some b else mode c tr)"
| "mode c (e # tr) = mode c tr"

text \<open>
  The trace and the structs agree: the \<open>actions\<close> slice is what the registrations imply;
  \<open>runActions\<close> has executed once if \<open>onceActions\<close> is set and never otherwise; each
  execution ran the list the registrations before it imply; only a Cascade whose test-and-set
  \<open>Kill\<close> won has run its actions, and it has run them when done is raised.
\<close>

definition hooks_ok :: "state \<Rightarrow> bool" where
  "hooks_ok s = (\<forall>c. actions (heap s c) = hook_order c (trace s))"

definition runs_once :: "state \<Rightarrow> bool" where
  "runs_once s = (\<forall>c. length (runs c (trace s)) = (if onceActions (heap s c) then 1 else 0))"

definition runs_match :: "state \<Rightarrow> bool" where
  "runs_match s = (\<forall>c. runs c (trace s) = queued c (trace s))"

definition ran_by_kill :: "state \<Rightarrow> bool" where
  "ran_by_kill s = (\<forall>c. onceActions (heap s c) \<longrightarrow> mode c (trace s) = Some True)"

definition kill_ran :: "state \<Rightarrow> bool" where
  "kill_ran s =
     (\<forall>c. done_ch (heap s c) \<longrightarrow> mode c (trace s) = Some True \<longrightarrow> onceActions (heap s c))"

definition hist_ok :: "state \<Rightarrow> bool" where
  "hist_ok s = (hooks_ok s \<and> runs_once s \<and> runs_match s \<and> ran_by_kill s \<and> kill_ran s)"

section \<open>The root of a Cascade\<close>

text \<open>
  The Cascade reached from \<open>c\<close> by following \<open>parent\<close> links until there is none, and the
  number of links followed. A parent is created before its child, so \<open>c\<close> links suffice.
\<close>

fun root_of :: "(cid \<Rightarrow> Cascade) \<Rightarrow> nat \<Rightarrow> cid \<Rightarrow> cid" where
  "root_of h 0 c = c"
| "root_of h (Suc n) c = (case parent (h c) of None \<Rightarrow> c | Some p \<Rightarrow> root_of h n p)"

fun depth_of :: "(cid \<Rightarrow> Cascade) \<Rightarrow> nat \<Rightarrow> cid \<Rightarrow> nat" where
  "depth_of h 0 c = 0"
| "depth_of h (Suc n) c = (case parent (h c) of None \<Rightarrow> 0 | Some p \<Rightarrow> Suc (depth_of h n p))"

section \<open>Programs and schedules used below\<close>

text \<open>
  Scenario A of the spec: two appended actions, one prepended action, then \<open>Kill\<close>, by one
  goroutine. The 15 steps are the five calls, the ten program points of the driver in \<open>Kill\<close> and
  \<open>closeAndClean\<close>, and the return of \<open>Kill\<close>.
\<close>

definition scenario_A :: state where
  "scenario_A =
     run (replicate 15 0) (start [[NewRoot, DoOnKill 0 1, DoOnKill 0 2, DoFirstOnKill 0 3, Kill 0]])"


text \<open>
  A root 0 with a child 1, and \<open>Kill\<close> on the root. After this schedule goroutine 0 (the
  driver of the root) has spawned goroutine 1 for the child and waits in \<open>wg.Wait()\<close>, and
  goroutine 1 has driven the child through all of \<open>closeAndClean\<close>.
\<close>

definition parent_waits :: state where
  "parent_waits =
     run ([0, 0, 0, 0] @ replicate 11 1) (start [[NewRoot, ChildCascade 0, Kill 0]])"

text \<open>
  An \<open>UnMark\<close> that brings \<open>tracked\<close> to zero while \<open>Kill\<close> waits for a child. Goroutine 0
  creates a root 0 and its child 1 and marks both. Goroutine 1 calls \<open>Kill\<close> on the root: it
  wins the test-and-set and spawns goroutine 2 for the child. Goroutine 2 drives the child
  until it blocks in \<open>c.Wait()\<close> (the child is still marked), so goroutine 1 is blocked in
  \<open>wg.Wait()\<close>. Then goroutine 0 unmarks the root.
\<close>

definition unmark_race_before :: state where
  "unmark_race_before =
     run (replicate 6 0 @ [1, 1] @ replicate 6 2 @ [1] @ [0, 0])
       (start [[NewRoot, ChildCascade 0, Mark 1, Mark 0, UnMark 0], [Kill 0]])"

definition unmark_race :: state where
  "unmark_race = run [0] unmark_race_before"

text \<open>
  A root 0 with a child 1 that tracks one goroutine. Goroutine 0 calls \<open>Kill\<close> on the child
  and blocks in \<open>c.Wait()\<close> (the tracked goroutine never unmarks); then goroutine 1 calls
  \<open>Kill\<close> on the root, whose fan-out goroutine 2 finds \<open>isDead\<close> of the child already set.
\<close>

definition child_killed_first :: state where
  "child_killed_first =
     run (replicate 10 0 @ [1, 1] @ [2, 2, 2] @ replicate 9 1)
       (start [[NewRoot, ChildCascade 0, Mark 1, Kill 1], [Kill 0]])"

text \<open>
  Two goroutines call \<open>Kill\<close> on the same Cascade, which tracks one goroutine: goroutine 0
  wins the test-and-set and blocks in \<open>c.Wait()\<close>; goroutine 1 loses it.
\<close>

definition second_kill :: state where
  "second_kill = run (replicate 9 0 @ [1, 1]) (start [[NewRoot, Mark 0, Kill 0], [Kill 0]])"

text \<open>
  \<open>KillWithError\<close> on a root, then \<open>KillAllWithError\<close> on the same root with another error,
  by one goroutine.
\<close>

definition second_error :: state where
  "second_error =
     run (replicate 18 0)
       (start [[NewRoot, KillWithError 0 (Some (UserError 1)),
                KillAllWithError 0 (Some (UserError 2))]])"

text \<open>
  Two goroutines call \<open>Context(nil)\<close> on a fresh root at the same time: both read \<open>c.ctx == nil\<close>
  before either has stored it, and both go through \<open>linkWithContext(context.Background())\<close>.
  Then goroutine 2 kills the root. Token 1 is the context returned to goroutine 0, token 2 the
  one returned to goroutine 1.
\<close>

definition context_race :: state where
  "context_race =
     run ([0, 0, 1] @ replicate 5 0 @ replicate 5 1 @ replicate 12 2)
       (start [[NewRoot, Context 0 None], [Context 0 None], [Kill 0]])"

text \<open>
  Scenarios F and G of the spec, before the call: a root 0, its child 1, and the child's
  child 2, on which goroutine 0 is about to make the tree-wide call \<open>f\<close>.
\<close>

definition tree_of_three :: "call \<Rightarrow> state" where
  "tree_of_three f = run [0, 0, 0] (start [[NewRoot, ChildCascade 0, ChildCascade 1, f]])"

definition scenario_G :: state where
  "scenario_G = tree_of_three (KillAllWithError 2 (Some (UserError 7)))"

text \<open>A root that has been killed, by a goroutine that then calls \<open>ChildCascade\<close> on it.\<close>

definition killed_root :: state where
  "killed_root = run (replicate 12 0) (start [[NewRoot, Kill 0, ChildCascade 0]])"

text \<open>
  A root whose driver has just executed \<open>c.children = nil\<close>, the first statement of
  \<open>closeAndClean\<close>, while goroutine 1 is about to call \<open>ChildCascade\<close> on it.
\<close>

definition clearing_root :: state where
  "clearing_root = run (replicate 5 0) (start [[NewRoot, Kill 0], [ChildCascade 0]])"

section \<open>Kill and Cancel compared\<close>

text \<open>
  The \<open>Cancel\<close> counterpart of a call: \<open>Kill\<close>, \<open>KillWithError\<close>, \<open>KillAll\<close> and
  \<open>KillAllWithError\<close> become \<open>Cancel\<close>, \<open>CancelWithError\<close>, \<open>CancelAll\<close> and
  \<open>CancelAllWithError\<close> on the same Cascade with the same argument.
\<close>

fun as_cancel :: "call \<Rightarrow> call" where
  "as_cancel (Kill c) = Cancel c"
| "as_cancel (KillWithError c e) = CancelWithError c e"
| "as_cancel (KillAll c) = CancelAll c"
| "as_cancel (KillAllWithError c e) = CancelAllWithError c e"
| "as_cancel f = f"

text \<open>
  A state without what tells \<open>Kill\<close> from \<open>Cancel\<close>. The names of the calls and the flag of the
  driver are those of \<open>Cancel\<close> (in goroutines and in the trace), \<open>onceActions\<close> is unset and
  the trace has no run of \<open>runActions\<close>. Everything else is kept: every other field of every
  Cascade (the three channels, \<open>isDead\<close>, \<open>children\<close>, \<open>tracked\<close>, the actions slice, \<open>ctx\<close>,
  \<open>trackedCtx\<close>, the error), the contexts, the wait groups, the program point of every
  goroutine, the panic flag, and every other event of the trace in its order.
\<close>

fun forget_instr :: "instr \<Rightarrow> instr" where
  "forget_instr (Call f) = Call (as_cancel f)"
| "forget_instr (Shutdown c b ph) = Shutdown c False ph"
| "forget_instr (Return f v) = Return (as_cancel f) v"
| "forget_instr (CtxLookup c x f) = CtxLookup c x (as_cancel f)"
| "forget_instr (LinkWith c x f) = LinkWith c x (as_cancel f)"
| "forget_instr (NewTracked c x f) = NewTracked c x (as_cancel f)"
| "forget_instr i = i"

fun forget_trace :: "event list \<Rightarrow> event list" where
  "forget_trace [] = []"
| "forget_trace (EvActions c acts # es) = forget_trace es"
| "forget_trace (EvBegin t c b # es) = EvBegin t c False # forget_trace es"
| "forget_trace (EvReturn t f v # es) = EvReturn t (as_cancel f) v # forget_trace es"
| "forget_trace (e # es) = e # forget_trace es"

definition forget_mode :: "state \<Rightarrow> state" where
  "forget_mode s =
     s\<lparr>heap := (\<lambda>c. (heap s c)\<lparr>onceActions := False\<rparr>),
       threads := map (map forget_instr) (threads s),
       trace := forget_trace (trace s)\<rparr>"




section \<open>Who writes an error slot\<close>

text \<open>
  The Cascade whose error slot an instruction may write: the receiver of a call of
  \<open>KillWithError\<close> or \<open>CancelWithError\<close>. A program is tree-wide when its goroutines make
  no such call themselves (they use \<open>KillAllWithError\<close> and \<open>CancelAllWithError\<close>).
\<close>

fun error_target :: "instr \<Rightarrow> cid option" where
  "error_target (Call (KillWithError c e)) = Some c"
| "error_target (Call (CancelWithError c e)) = Some c"
| "error_target i = None"

fun tree_wide :: "call \<Rightarrow> bool" where
  "tree_wide (KillWithError c e) = False"
| "tree_wide (CancelWithError c e) = False"
| "tree_wide f = True"

text \<open>
  Every pending call of \<open>KillWithError\<close> or \<open>CancelWithError\<close> is on a root, and the error slot
  of every Cascade that has a parent is empty.
\<close>

definition errors_at_roots :: "state \<Rightarrow> bool" where
  "errors_at_roots s =
     ((\<forall>t < length (threads s). \<forall>j \<in> set (threads s ! t). \<forall>d.
         error_target j = Some d \<longrightarrow> d < nextc s \<and> parent (heap s d) = None) \<and>
      (\<forall>d. parent (heap s d) \<noteq> None \<longrightarrow> err (heap s d) = None))"

text \<open>
  Scenario G of the spec, run to the end: goroutine 0 walks to the root and stores the error
  there; the drivers of the root (goroutine 0), of Cascade 1 (goroutine 1) and of Cascade 2
  (goroutine 2) then shut the tree down, children first.
\<close>

definition scenario_G_end :: state where
  "scenario_G_end =
     run (replicate 6 0 @ [1, 1] @ replicate 12 2 @ replicate 10 1 @ replicate 13 0) scenario_G"


section \<open>Every step keeps the invariants\<close>

lemma foldr_cancel_fields [simp]:
  "heap (foldr (\<lambda>kv. cancel_tok (snd kv)) m s) = heap s"
  "nextc (foldr (\<lambda>kv. cancel_tok (snd kv)) m s) = nextc s"
  "nextx (foldr (\<lambda>kv. cancel_tok (snd kv)) m s) = nextx s"
  "wgs (foldr (\<lambda>kv. cancel_tok (snd kv)) m s) = wgs s"
  "nextw (foldr (\<lambda>kv. cancel_tok (snd kv)) m s) = nextw s"
  "threads (foldr (\<lambda>kv. cancel_tok (snd kv)) m s) = threads s"
  "trace (foldr (\<lambda>kv. cancel_tok (snd kv)) m s) = trace s"
  "panicked (foldr (\<lambda>kv. cancel_tok (snd kv)) m s) = panicked s"
  by (induction m) (simp_all add: cancel_tok_def)

lemmas tf_defs = upd_def log_def spawn_def panic_def close_dying_def close_dead_def close_done_def
  cancel_tok_def new_tok_def alloc_def runActions_def removeChild_def cancelTrackedContexts_def
  link_insert_def shutdown_enter_def with_error_def childCascade_def

lemma step_shape:
  assumes "step t s = Some s'"
  obtains i k new s1 where "t < length (threads s)" "threads s ! t = i # k" "allocated s i"
    "exec t i s = Some (new, s1)" "s' = s1\<lparr>threads := (threads s1)[t := new @ k]\<rparr>"
    "\<not> panicked s"
  using assms by (auto simp: step_def allocated_def split: if_splits list.splits option.splits)

lemma exec_grows:
  assumes "fresh_above s" "parents_below s" "exec t i s = Some (new, s1)" "allocated s i"
  shows "grows s s1"
proof -
  have fr: "heap s (nextc s) = RootCascade" using assms(1) by (simp add: fresh_above_def)
  show ?thesis
  proof (cases i)
    case (Call f)
    then show ?thesis using assms(2-4) fr
      by (cases f) (auto simp: grows_def allocated_def tf_defs RootCascade_def Let_def parents_below_def
           split: if_splits option.splits)
  next
    case (Shutdown c b ph)
    then show ?thesis using assms(2-4) fr
      by (cases ph) (auto simp: grows_def allocated_def tf_defs RootCascade_def Let_def parents_below_def
           split: if_splits option.splits)
  qed (use assms(3,4) fr in \<open>auto simp: grows_def allocated_def tf_defs RootCascade_def Let_def
         split: if_splits option.splits\<close>)
qed

text \<open>Only the driver of a Cascade closes its dying and done channels and runs its actions.\<close>

lemma exec_others_keep:
  assumes "fresh_above s" "exec t i s = Some (new, s1)" "\<forall>b ph. i \<noteq> Shutdown c b ph"
  shows "dying_ch (heap s1 c) = dying_ch (heap s c) \<and> done_ch (heap s1 c) = done_ch (heap s c) \<and>
         onceActions (heap s1 c) = onceActions (heap s c)"
proof -
  have fr: "heap s (nextc s) = RootCascade" using assms(1) by (simp add: fresh_above_def)
  show ?thesis
  proof (cases i)
    case (Call f)
    then show ?thesis using assms(2) fr
      by (cases f) (auto simp: tf_defs RootCascade_def Let_def split: if_splits option.splits)
  next
    case (Shutdown c' b ph)
    then have "c' \<noteq> c" using assms(3) by auto
    then show ?thesis using assms(2) Shutdown
      by (cases ph) (auto simp: tf_defs Let_def split: if_splits option.splits)
  qed (use assms(2) in \<open>auto simp: tf_defs Let_def split: if_splits option.splits\<close>)
qed

lemma exec_establish:
  assumes "flags_ok s" "parents_below s" "fresh_above s" "exec t i s = Some (new, s1)"
    "pc_ok s t i" "allocated s i"
  shows "list_all (pc_ok s1 t) new \<and> list_all quiet (tl new)"
proof (cases i)
  case (Call f)
  then show ?thesis using assms
    by (cases f) (auto simp: flags_ok_def allocated_def tf_defs Let_def split: if_splits option.splits)
next
  case (Shutdown c b ph)
  have "p \<noteq> c" if "parent (heap s c) = Some p" for p
    using that assms(2) by (auto simp: parents_below_def)
  then show ?thesis using assms(4-6) Shutdown
    by (cases ph) (auto simp: allocated_def tf_defs Let_def split: if_splits option.splits)
qed (use assms(4-6) in \<open>auto simp: allocated_def tf_defs Let_def split: if_splits option.splits\<close>)

lemma harmless_pc_ok: "harmless j \<Longrightarrow> pc_ok s t j \<and> quiet j"
  by (cases j) auto

lemma exec_spawned:
  assumes "exec t i s = Some (new, s1)"
  shows "\<exists>gs. threads s1 = threads s @ gs \<and> list_all (list_all harmless) gs"
proof (cases i)
  case (Call f)
  then show ?thesis using assms
    by (cases f) (auto simp: tf_defs Let_def split: if_splits option.splits)
next
  case (Shutdown c b ph)
  then show ?thesis using assms
    by (cases ph) (auto simp: tf_defs Let_def list_all_iff split: if_splits option.splits)
qed (use assms in \<open>auto simp: tf_defs Let_def split: if_splits option.splits\<close>)

lemma exec_flags_ok:
  assumes "flags_ok s" "fresh_above s" "exec t i s = Some (new, s1)" "pc_ok s t i" "allocated s i"
  shows "flags_ok s1"
proof -
  have fr: "heap s (nextc s) = RootCascade" using assms(2) by (simp add: fresh_above_def)
  show ?thesis
  proof (cases i)
    case (Call f)
    then show ?thesis using assms(1,3-5) fr
      by (cases f) (auto simp: flags_ok_def allocated_def tf_defs RootCascade_def Let_def
           split: if_splits option.splits)
  next
    case (Shutdown c b ph)
    then show ?thesis using assms(1,3-5)
      by (cases ph) (auto simp: flags_ok_def allocated_def tf_defs Let_def
           split: if_splits option.splits)
  qed (use assms(1,3-5) in \<open>auto simp: flags_ok_def allocated_def tf_defs Let_def
         split: if_splits option.splits\<close>)
qed

lemma exec_begins_ok:
  assumes "begins_ok s" "fresh_above s" "parents_below s" "exec t i s = Some (new, s1)" "allocated s i"
  shows "begins_ok s1"
proof -
  have g: "grows s s1" using assms exec_grows by blast
  have new_ev: "EvBegin t' c b \<in> set (trace s1) \<Longrightarrow> EvBegin t' c b \<notin> set (trace s) \<Longrightarrow>
      t' = t \<and> \<not> isDead (heap s c) \<and> isDead (heap s1 c) \<and>
      set (trace s1) = insert (EvBegin t c b) (set (trace s))" for t' c b
  proof (cases i)
    case (Call f)
    assume "EvBegin t' c b \<in> set (trace s1)" "EvBegin t' c b \<notin> set (trace s)"
    then show ?thesis using Call assms(4)
      by (cases f) (auto simp: tf_defs Let_def split: if_splits option.splits)
  next
    case (Shutdown c' b' ph)
    assume "EvBegin t' c b \<in> set (trace s1)" "EvBegin t' c b \<notin> set (trace s)"
    then show ?thesis using Shutdown assms(4)
      by (cases ph) (auto simp: tf_defs Let_def split: if_splits option.splits)
  qed (use assms(4) in \<open>auto simp: tf_defs Let_def split: if_splits option.splits\<close>)
  show ?thesis
    unfolding begins_ok_def
  proof (intro allI impI)
    fix t' c b assume a: "EvBegin t' c b \<in> set (trace s1)"
    show "isDead (heap s1 c) \<and> (\<forall>t'' b'. EvBegin t'' c b' \<in> set (trace s1) \<longrightarrow> t'' = t' \<and> b' = b)"
    proof (cases "EvBegin t' c b \<in> set (trace s)")
      case True
      then have d: "isDead (heap s c)" and u: "\<And>t'' b'. EvBegin t'' c b' \<in> set (trace s) \<Longrightarrow> t'' = t' \<and> b' = b"
        using assms(1) by (auto simp: begins_ok_def)
      have "t'' = t' \<and> b' = b" if "EvBegin t'' c b' \<in> set (trace s1)" for t'' b'
      proof (cases "EvBegin t'' c b' \<in> set (trace s)")
        case True then show ?thesis using u by blast
      next
        case False then show ?thesis using new_ev[OF that False] d by blast
      qed
      then show ?thesis using d g by (auto simp: grows_def)
    next
      case False
      from new_ev[OF a False] have n: "t' = t" "\<not> isDead (heap s c)" "isDead (heap s1 c)"
        "set (trace s1) = insert (EvBegin t c b) (set (trace s))" by auto
      have "t'' = t' \<and> b' = b" if "EvBegin t'' c b' \<in> set (trace s1)" for t'' b'
        using that n assms(1) by (auto simp: begins_ok_def)
      then show ?thesis using n by blast
    qed
  qed
qed

lemma exec_fresh_parents:
  assumes "fresh_above s" "parents_below s" "exec t i s = Some (new, s1)" "allocated s i"
  shows "fresh_above s1 \<and> parents_below s1"
proof -
  have fr: "heap s (nextc s) = RootCascade" using assms(1) by (simp add: fresh_above_def)
  show ?thesis
  proof (cases i)
    case (Call f)
    then show ?thesis using assms
      by (cases f) (auto simp: fresh_above_def parents_below_def allocated_def tf_defs RootCascade_def Let_def
           split: if_splits option.splits)
  next
    case (Shutdown c b ph)
    have "p < nextc s" if "parent (heap s c) = Some p" for p
      using that assms(2,4) Shutdown by (fastforce simp: parents_below_def allocated_def)
    then show ?thesis using assms Shutdown
      by (cases ph) (auto simp: fresh_above_def parents_below_def allocated_def tf_defs Let_def
           split: if_splits option.splits)
  qed (use assms in \<open>auto simp: fresh_above_def parents_below_def allocated_def tf_defs Let_def
         split: if_splits option.splits\<close>)
qed

lemma in_set_tlD: "x \<in> set (tl xs) \<Longrightarrow> x \<in> set xs"
  by (cases xs) auto

lemma pc_ok_threads [simp]: "pc_ok (s\<lparr>threads := x\<rparr>) t j = pc_ok s t j"
  by (cases j) auto

lemma pc_stable:
  assumes "grows s s1" "pc_ok s t' j"
    "\<And>c b ph. j = Shutdown c b ph \<Longrightarrow>
       dying_ch (heap s1 c) = dying_ch (heap s c) \<and> done_ch (heap s1 c) = done_ch (heap s c) \<and>
       onceActions (heap s1 c) = onceActions (heap s c)"
  shows "pc_ok s1 t' j"
proof (cases j)
  case (Shutdown c b ph)
  from assms(3)[OF Shutdown] assms(1,2) Shutdown show ?thesis
    by (auto simp: grows_def)
next
  case (TrackedGate c)
  then show ?thesis using assms(1,2) by (auto simp: grows_def)
qed auto

lemma inv_step:
  assumes "inv s" "step t s = Some s'"
  shows "inv s'"
proof -
  from assms(2) obtain i k new s1 where
    t: "t < length (threads s)" and th: "threads s ! t = i # k" and al: "allocated s i" and
    ex: "exec t i s = Some (new, s1)" and s': "s' = s1\<lparr>threads := (threads s1)[t := new @ k]\<rparr>"
    by (rule step_shape)
  from assms(1) have fa: "fresh_above s" and pb: "parents_below s" and fl: "flags_ok s" and
    pcs: "pcs_ok s" and bg: "begins_ok s" by (auto simp: inv_def)
  from pcs t th have pci: "pc_ok s t i" and pck: "list_all (pc_ok s t) k" and qk: "list_all quiet k"
    by (auto simp: pcs_ok_def)
  have g: "grows s s1" using exec_grows[OF fa pb ex al] .
  from exec_spawned[OF ex] obtain gs where gs: "threads s1 = threads s @ gs"
    and hgs: "list_all (list_all harmless) gs" by blast
  from exec_establish[OF fl pb fa ex pci al]
  have en: "list_all (pc_ok s1 t) new" and qn: "list_all quiet (tl new)" by auto
  have 1: "fresh_above s'" "parents_below s'"
    using exec_fresh_parents[OF fa pb ex al] s' by (auto simp: fresh_above_def parents_below_def)
  have 2: "flags_ok s'" using exec_flags_ok[OF fl fa ex pci al] s' by (auto simp: flags_ok_def)
  have 3: "begins_ok s'" using exec_begins_ok[OF bg fa pb ex al] s' by (auto simp: begins_ok_def)
  have 4: "pcs_ok s'"
    unfolding pcs_ok_def
  proof (intro allI impI)
    fix t' assume lt: "t' < length (threads s')"
    show "list_all (pc_ok s' t') (threads s' ! t') \<and> list_all quiet (tl (threads s' ! t'))"
    proof (cases "t' = t")
      case True
      have thr: "threads s' ! t' = new @ k" using True t gs s' by (simp add: nth_append)
      have "pc_ok s1 t j" if "j \<in> set k" for j
      proof (rule pc_stable[OF g])
        show "pc_ok s t j" using that pck by (auto simp: list_all_iff)
      next
        fix c b ph assume "j = Shutdown c b ph"
        then show "dying_ch (heap s1 c) = dying_ch (heap s c) \<and> done_ch (heap s1 c) = done_ch (heap s c) \<and>
       onceActions (heap s1 c) = onceActions (heap s c)"
          using that qk by (auto simp: list_all_iff)
      qed
      then have a: "list_all (pc_ok s' t') (new @ k)" using en True s' by (auto simp: list_all_iff)
      have b: "list_all quiet (tl (new @ k))" using qn qk
        by (cases new) (auto simp: list_all_iff dest: in_set_tlD)
      show ?thesis using a b thr by simp
    next
      case False
      show ?thesis
      proof (cases "t' < length (threads s)")
        case True
        have thr: "threads s' ! t' = threads s ! t'" using True False gs s' by (simp add: nth_append)
        from pcs True have o: "list_all (pc_ok s t') (threads s ! t')"
          and q: "list_all quiet (tl (threads s ! t'))" by (auto simp: pcs_ok_def)
        have "pc_ok s1 t' j" if "j \<in> set (threads s ! t')" for j
        proof (rule pc_stable[OF g])
          show pj: "pc_ok s t' j" using that o by (auto simp: list_all_iff)
          fix c b ph assume j: "j = Shutdown c b ph"
          have "\<forall>b' ph'. i \<noteq> Shutdown c b' ph'"
          proof (intro allI notI)
            fix b' ph' assume "i = Shutdown c b' ph'"
            then have "EvBegin t c b' \<in> set (trace s)" using pci by simp
            moreover have "EvBegin t' c b \<in> set (trace s)" using pj j by simp
            ultimately show False using bg False by (auto simp: begins_ok_def)
          qed
          from exec_others_keep[OF fa ex this]
          show "dying_ch (heap s1 c) = dying_ch (heap s c) \<and> done_ch (heap s1 c) = done_ch (heap s c) \<and>
       onceActions (heap s1 c) = onceActions (heap s c)" .
        qed
        then show ?thesis using thr q s' by (auto simp: list_all_iff)
      next
        case False
        then have thr: "threads s' ! t' = gs ! (t' - length (threads s))"
          and lt': "t' - length (threads s) < length gs"
          using lt gs s' \<open>t' \<noteq> t\<close> by (auto simp: nth_append)
        then have "list_all harmless (threads s' ! t')" using hgs by (auto simp: list_all_iff)
        then show ?thesis using harmless_pc_ok
          by (auto simp: list_all_iff dest: in_set_tlD)
      qed
    qed
  qed
  show ?thesis using 1 2 3 4 by (simp add: inv_def)
qed

lemma inv_start: "inv (start gs)"
proof -
  have "list_all quiet (tl (map Call g))" for g
    by (cases g) (auto simp: list_all_iff)
  then show ?thesis
    by (auto simp: inv_def start_def fresh_above_def parents_below_def flags_ok_def pcs_ok_def
        begins_ok_def RootCascade_def list_all_iff)
qed

lemma inv_run: "inv s \<Longrightarrow> inv (run sched s)"
  by (induction sched arbitrary: s) (auto split: option.splits intro: inv_step)

lemma inv_reach: "inv (run sched (start gs))"
  by (rule inv_run[OF inv_start])

section \<open>The trace records every run of the actions\<close>

lemma mode_finds_begin:
  "EvBegin t c b \<in> set tr \<Longrightarrow> \<exists>t' b'. mode c tr = Some b' \<and> EvBegin t' c b' \<in> set tr"
proof (induction tr)
  case Nil
  then show ?case by simp
next
  case (Cons e tr)
  then show ?case by (cases e) auto
qed

lemma mode_begin:
  assumes "begins_ok s" "EvBegin t c b \<in> set (trace s)"
  shows "mode c (trace s) = Some b"
proof -
  from mode_finds_begin[OF assms(2)] obtain t' b' where
    "mode c (trace s) = Some b'" "EvBegin t' c b' \<in> set (trace s)" by blast
  then show ?thesis using assms by (auto simp: begins_ok_def)
qed

lemma mode_Some: "mode c tr = Some b \<Longrightarrow> \<exists>t. EvBegin t c b \<in> set tr"
proof (induction tr)
  case Nil
  then show ?case by simp
next
  case (Cons e tr)
  then show ?case by (cases e) (auto split: if_splits)
qed

lemma exec_hooks_ok:
  assumes "hooks_ok s" "fresh_above s" "exec t i s = Some (new, s1)"
  shows "hooks_ok s1"
proof -
  have fr: "heap s (nextc s) = RootCascade" using assms(2) by (simp add: fresh_above_def)
  have fa: "actions (heap s (nextc s)) = []" using fr by (simp add: RootCascade_def)
  show ?thesis
  proof (cases i)
    case (Call f)
    then show ?thesis using assms(1,3) fa
      by (cases f) (auto simp: hooks_ok_def tf_defs RootCascade_def Let_def
           split: if_splits option.splits)
  next
    case (Shutdown c b ph)
    show ?thesis using assms(1,3) Shutdown
      by (cases ph) (auto simp: hooks_ok_def tf_defs Let_def
           split: if_splits option.splits)
  qed (use assms(1,3) in \<open>auto simp: hooks_ok_def tf_defs Let_def
         split: if_splits option.splits\<close>)
qed

lemma exec_runs_once:
  assumes "runs_once s" "fresh_above s" "exec t i s = Some (new, s1)"
  shows "runs_once s1"
proof -
  have fr: "heap s (nextc s) = RootCascade" using assms(2) by (simp add: fresh_above_def)
  have fa: "\<not> onceActions (heap s (nextc s))" using fr by (simp add: RootCascade_def)
  show ?thesis
  proof (cases i)
    case (Call f)
    then show ?thesis using assms(1,3) fa
      by (cases f) (auto simp: runs_once_def tf_defs RootCascade_def Let_def
           split: if_splits option.splits)
  next
    case (Shutdown c b ph)
    show ?thesis using assms(1,3) Shutdown
      by (cases ph) (auto simp: runs_once_def tf_defs Let_def
           split: if_splits option.splits)
  qed (use assms(1,3) in \<open>auto simp: runs_once_def tf_defs Let_def
         split: if_splits option.splits\<close>)
qed

lemma exec_runs_match:
  assumes "runs_match s" "hooks_ok s" "exec t i s = Some (new, s1)"
  shows "runs_match s1"
proof (cases i)
  case (Call f)
  then show ?thesis using assms(1,3)
    by (cases f) (auto simp: runs_match_def tf_defs Let_def split: if_splits option.splits)
next
  case (Shutdown c b ph)
  show ?thesis using assms Shutdown
    by (cases ph) (auto simp: runs_match_def hooks_ok_def tf_defs Let_def
         split: if_splits option.splits)
qed (use assms(1,3) in \<open>auto simp: runs_match_def tf_defs Let_def split: if_splits option.splits\<close>)

lemma exec_ran_by_kill:
  assumes "ran_by_kill s" "flags_ok s" "begins_ok s" "fresh_above s" "exec t i s = Some (new, s1)"
    "pc_ok s t i"
  shows "ran_by_kill s1"
proof -
  have fr: "heap s (nextc s) = RootCascade" using assms(4) by (simp add: fresh_above_def)
  have fa: "\<not> onceActions (heap s (nextc s))" "\<not> done_ch (heap s (nextc s))"
    using fr by (simp_all add: RootCascade_def)
  have nd: "\<not> onceActions (heap s c) \<and> \<not> done_ch (heap s c)" if "\<not> isDead (heap s c)" for c
    using that assms(2) by (auto simp: flags_ok_def)
  show ?thesis
  proof (cases i)
    case (Call f)
    then show ?thesis using assms(1,5) fa nd
      by (cases f) (auto simp: ran_by_kill_def tf_defs RootCascade_def Let_def
           split: if_splits option.splits)
  next
    case (Shutdown c b ph)
    then have m: "mode c (trace s) = Some b" and o: "onceActions (heap s c) \<longleftrightarrow> b \<and> 7 \<le> rank ph"
      using assms(3,6) mode_begin by auto
    show ?thesis using assms(1,5) Shutdown m o
      by (cases ph) (auto simp: ran_by_kill_def tf_defs Let_def
           split: if_splits option.splits)
  qed (use assms(1,5) in \<open>auto simp: ran_by_kill_def tf_defs Let_def
         split: if_splits option.splits\<close>)
qed

lemma exec_kill_ran:
  assumes "kill_ran s" "flags_ok s" "begins_ok s" "fresh_above s" "exec t i s = Some (new, s1)"
    "pc_ok s t i"
  shows "kill_ran s1"
proof -
  have fr: "heap s (nextc s) = RootCascade" using assms(4) by (simp add: fresh_above_def)
  have fa: "\<not> onceActions (heap s (nextc s))" "\<not> done_ch (heap s (nextc s))"
    using fr by (simp_all add: RootCascade_def)
  have nd: "\<not> onceActions (heap s c) \<and> \<not> done_ch (heap s c)" if "\<not> isDead (heap s c)" for c
    using that assms(2) by (auto simp: flags_ok_def)
  show ?thesis
  proof (cases i)
    case (Call f)
    then show ?thesis using assms(1,5) fa nd
      by (cases f) (auto simp: kill_ran_def tf_defs RootCascade_def Let_def
           split: if_splits option.splits)
  next
    case (Shutdown c b ph)
    then have m: "mode c (trace s) = Some b" and o: "onceActions (heap s c) \<longleftrightarrow> b \<and> 7 \<le> rank ph"
      using assms(3,6) mode_begin by auto
    show ?thesis using assms(1,5) Shutdown m o
      by (cases ph) (auto simp: kill_ran_def tf_defs Let_def
           split: if_splits option.splits)
  qed (use assms(1,5) in \<open>auto simp: kill_ran_def tf_defs Let_def
         split: if_splits option.splits\<close>)
qed

lemma hist_step:
  assumes "inv s" "hist_ok s" "step t s = Some s'"
  shows "hist_ok s'"
proof -
  from assms(3) obtain i k new s1 where
    t: "t < length (threads s)" and th: "threads s ! t = i # k" and al: "allocated s i" and
    ex: "exec t i s = Some (new, s1)" and s': "s' = s1\<lparr>threads := (threads s1)[t := new @ k]\<rparr>"
    by (rule step_shape)
  from assms(1) t th have pc: "pc_ok s t i" by (auto simp: inv_def pcs_ok_def)
  from assms(1) have fa: "fresh_above s" and fl: "flags_ok s" and bg: "begins_ok s"
    by (auto simp: inv_def)
  from assms(2) have h: "hooks_ok s" and r1: "runs_once s" and r2: "runs_match s"
    and m1: "ran_by_kill s" and m2: "kill_ran s"
    by (auto simp: hist_ok_def)
  have "hooks_ok s1" "runs_once s1" "runs_match s1" "ran_by_kill s1" "kill_ran s1"
    using exec_hooks_ok[OF h fa ex] exec_runs_once[OF r1 fa ex] exec_runs_match[OF r2 h ex]
      exec_ran_by_kill[OF m1 fl bg fa ex pc] exec_kill_ran[OF m2 fl bg fa ex pc]
    by auto
  then show ?thesis using s'
    by (simp add: hist_ok_def hooks_ok_def runs_once_def runs_match_def ran_by_kill_def kill_ran_def)
qed

lemma hist_start: "hist_ok (start gs)"
  by (simp add: hist_ok_def hooks_ok_def runs_once_def runs_match_def ran_by_kill_def kill_ran_def
      start_def RootCascade_def)

lemma inv_hist_run: "inv s \<Longrightarrow> hist_ok s \<Longrightarrow> inv (run sched s) \<and> hist_ok (run sched s)"
proof (induction sched arbitrary: s)
  case Nil
  then show ?case by simp
next
  case (Cons t ts)
  show ?case
  proof (cases "step t s")
    case None
    then show ?thesis using Cons by simp
  next
    case (Some s')
    then show ?thesis using Cons inv_step hist_step by simp
  qed
qed

lemma hist_reach: "hist_ok (run sched (start gs))"
  using inv_hist_run[OF inv_start hist_start] by blast

section \<open>Runs, and what a step can do to a channel\<close>

lemma runs_match_split:
  "runs c (post @ EvActions c acts # pre) = queued c (post @ EvActions c acts # pre) \<Longrightarrow>
   acts = hook_order c pre"
proof (induction post)
  case Nil
  then show ?case by simp
next
  case (Cons e post)
  then show ?case by (cases e) (auto split: if_splits)
qed

lemma exec_dead_raise:
  assumes "fresh_above s" "exec t i s = Some (new, s1)" "pc_ok s t i"
    "\<not> dead_ch (heap s c)" "dead_ch (heap s1 c)"
  shows "isDead (heap s c) \<and> tracked (heap s c) = 0 \<and> tracked (heap s1 c) = 0"
proof -
  have fr: "heap s (nextc s) = RootCascade" using assms(1) by (simp add: fresh_above_def)
  show ?thesis
  proof (cases i)
    case (Call f)
    then show ?thesis using assms(2-5) fr
      by (cases f) (auto simp: tf_defs RootCascade_def Let_def split: if_splits option.splits)
  next
    case (Shutdown c' b ph)
    then show ?thesis using assms(2-5)
      by (cases ph) (auto simp: tf_defs Let_def split: if_splits option.splits)
  qed (use assms(2-5) in \<open>auto simp: tf_defs Let_def split: if_splits option.splits\<close>)
qed

lemma step_dead_raise:
  assumes "inv s" "step t s = Some s'" "\<not> dead_ch (heap s c)" "dead_ch (heap s' c)"
  shows "isDead (heap s c) \<and> tracked (heap s c) = 0 \<and> tracked (heap s' c) = 0"
proof -
  from assms(2) obtain i k new s1 where
    t: "t < length (threads s)" and th: "threads s ! t = i # k" and
    ex: "exec t i s = Some (new, s1)" and s': "s' = s1\<lparr>threads := (threads s1)[t := new @ k]\<rparr>"
    by (rule step_shape)
  from assms(1) t th have pc: "pc_ok s t i" by (auto simp: inv_def pcs_ok_def)
  from assms(1) have fa: "fresh_above s" by (simp add: inv_def)
  from assms(4) s' have "dead_ch (heap s1 c)" by simp
  from exec_dead_raise[OF fa ex pc assms(3) this] s' show ?thesis by simp
qed

lemma grows_refl: "grows s s"
  by (simp add: grows_def)

lemma grows_trans:
  assumes "grows s s1" "grows s1 s2"
  shows "grows s s2"
proof -
  have n: "nextc s \<le> nextc s1" "nextc s1 \<le> nextc s2"
    and l: "length (threads s) \<le> length (threads s1)" "length (threads s1) \<le> length (threads s2)"
    using assms by (simp_all add: grows_def)
  have tr: "\<exists>es. trace s2 = es @ trace s" using assms by (auto simp: grows_def)
  have c: "(isDead (heap s c) \<longrightarrow> isDead (heap s2 c)) \<and>
           (dying_ch (heap s c) \<longrightarrow> dying_ch (heap s2 c)) \<and>
           (dead_ch (heap s c) \<longrightarrow> dead_ch (heap s2 c)) \<and>
           (done_ch (heap s c) \<longrightarrow> done_ch (heap s2 c)) \<and>
           (onceActions (heap s c) \<longrightarrow> onceActions (heap s2 c)) \<and>
           (c < nextc s \<longrightarrow> children (heap s c) = None \<longrightarrow> children (heap s2 c) = None) \<and>
           (c < nextc s \<longrightarrow> trackedCtx (heap s c) = None \<longrightarrow> trackedCtx (heap s2 c) = None) \<and>
           (c < nextc s \<longrightarrow> parent (heap s2 c) = parent (heap s c))" for c
  proof -
    have "c < nextc s \<Longrightarrow> c < nextc s1" using n by simp
    then show ?thesis using assms unfolding grows_def by metis
  qed
  show ?thesis unfolding grows_def using n l tr c by (intro conjI allI) auto
qed

lemma step_grows: "inv s \<Longrightarrow> step t s = Some s' \<Longrightarrow> grows s s'"
proof -
  assume i: "inv s" and st: "step t s = Some s'"
  from st obtain i k new s1 where al: "allocated s i" and
    ex: "exec t i s = Some (new, s1)" and s': "s' = s1\<lparr>threads := (threads s1)[t := new @ k]\<rparr>"
    by (rule step_shape)
  from i have "grows s s1" using exec_grows[OF _ _ ex al] by (simp add: inv_def)
  then show ?thesis using s' by (simp add: grows_def)
qed

lemma run_grows: "inv s \<Longrightarrow> grows s (run sched s)"
proof (induction sched arbitrary: s)
  case Nil
  then show ?case by (simp add: grows_refl)
next
  case (Cons t ts)
  show ?case
  proof (cases "step t s")
    case None
    then show ?thesis using Cons by simp
  next
    case (Some s')
    then have "grows s s'" "inv s'" using Cons.prems step_grows inv_step by auto
    then show ?thesis using Cons.IH[of s'] Some grows_trans by auto
  qed
qed

lemma childCascade_step:
  assumes "t < length (threads s)" "threads s ! t = Call (ChildCascade c) # k" "c < nextc s"
    "\<not> panicked s"
  shows "\<exists>s'. step t s = Some s' \<and> (panicked s' \<longleftrightarrow> children (heap s c) = None)"
  using assms
  by (auto simp: step_def childCascade_def alloc_def panic_def upd_def Let_def split: option.splits)

lemma pcs_okD: "pcs_ok s \<Longrightarrow> t < length (threads s) \<Longrightarrow> j \<in> set (threads s ! t) \<Longrightarrow> pc_ok s t j"
  unfolding pcs_ok_def list_all_iff by blast

lemma run_append: "run (xs @ ys) s = run ys (run xs s)"
  by (induction xs arbitrary: s) auto

lemma run_replicate_Suc: "run (replicate (Suc n) t) s = run [t] (run (replicate n t) s)"
  using run_append[of "replicate n t" "[t]" s] by (simp add: replicate_append_same)

section \<open>Walking to the root\<close>

lemma climb_step:
  assumes K: "\<And>t c s. exec_call t (K c) s =
        Some ([Call (case parent (heap s c) of Some p \<Rightarrow> K p | None \<Rightarrow> B c), Return (K c) Void], s)"
    and tg: "\<And>c. call_target (K c) = Some c"
    and "c < nextc s" "t < length (threads s)" "threads s ! t = Call (K c) # k" "\<not> panicked s"
  shows "step t s = Some (s\<lparr>threads := (threads s)
           [t := Call (case parent (heap s c) of Some p \<Rightarrow> K p | None \<Rightarrow> B c) # Return (K c) Void # k]\<rparr>)"
  using assms(3-6) by (simp add: step_def K tg)

lemma climb:
  assumes K: "\<And>t c s. exec_call t (K c) s =
        Some ([Call (case parent (heap s c) of Some p \<Rightarrow> K p | None \<Rightarrow> B c), Return (K c) Void], s)"
    and tg: "\<And>c. call_target (K c) = Some c"
  shows "parents_below s \<Longrightarrow> c \<le> n \<Longrightarrow> c < nextc s \<Longrightarrow> t < length (threads s) \<Longrightarrow>
         threads s ! t = Call (K c) # k \<Longrightarrow> \<not> panicked s \<Longrightarrow>
         (\<exists>k'. run (replicate (Suc (depth_of (heap s) n c)) t) s =
                 s\<lparr>threads := (threads s)[t := Call (B (root_of (heap s) n c)) # k']\<rparr>) \<and>
         parent (heap s (root_of (heap s) n c)) = None \<and> root_of (heap s) n c \<le> c"
proof (induction n arbitrary: c s k)
  case 0
  then have c0: "c = 0" by simp
  have pn: "parent (heap s c) = None"
  proof (cases "parent (heap s c)")
    case (Some p)
    then show ?thesis using "0.prems"(1) c0 by (auto simp: parents_below_def)
  qed simp
  from climb_step[of K B, OF K tg "0.prems"(3,4,5,6)] pn show ?case by auto
next
  case (Suc n)
  note st = climb_step[of K B, OF K tg Suc.prems(3,4,5,6)]
  show ?case
  proof (cases "parent (heap s c)")
    case None
    then show ?thesis using st by auto
  next
    case (Some p)
    let ?s1 = "s\<lparr>threads := (threads s)[t := Call (K p) # Return (K c) Void # k]\<rparr>"
    have s1: "step t s = Some ?s1" using st Some by simp
    have pc: "p < c" using Some Suc.prems(1) by (auto simp: parents_below_def)
    have ih: "(\<exists>k'. run (replicate (Suc (depth_of (heap ?s1) n p)) t) ?s1 =
                 ?s1\<lparr>threads := (threads ?s1)[t := Call (B (root_of (heap ?s1) n p)) # k']\<rparr>) \<and>
         parent (heap ?s1 (root_of (heap ?s1) n p)) = None \<and> root_of (heap ?s1) n p \<le> p"
    proof (rule Suc.IH)
      show "parents_below ?s1" using Suc.prems(1) by (simp add: parents_below_def)
      show "p \<le> n" using pc Suc.prems(2) by simp
      show "p < nextc ?s1" using pc Suc.prems(3) by simp
      show "t < length (threads ?s1)" using Suc.prems(4) by simp
      show "threads ?s1 ! t = Call (K p) # Return (K c) Void # k" using Suc.prems(4) by simp
      show "\<not> panicked ?s1" using Suc.prems(6) by simp
    qed
    then obtain k' where r: "run (replicate (Suc (depth_of (heap s) n p)) t) ?s1 =
        s\<lparr>threads := (threads s)[t := Call (B (root_of (heap s) n p)) # k']\<rparr>"
      by auto
    have "run (replicate (Suc (depth_of (heap s) (Suc n) c)) t) s =
          run (replicate (Suc (depth_of (heap s) n p)) t) ?s1"
      using s1 Some by simp
    then show ?thesis using r ih Some pc by auto
  qed
qed

lemma with_error_step:
  assumes "c < nextc s" "t < length (threads s)" "\<not> panicked s"
    "threads s ! t = Call (if b then KillWithError c e else CancelWithError c e) # k"
  shows "\<exists>s'. step t s = Some s' \<and>
           (\<forall>d. d \<noteq> c \<longrightarrow> heap s' d = heap s d) \<and>
           err (heap s' c) = (if err (heap s c) = None then e else err (heap s c)) \<and>
           trace s' = trace s"
  using assms by (cases b) (auto simp: step_def with_error_def upd_def Let_def)

section \<open>Cancel makes the steps of Kill\<close>

text \<open>
  A step from a state and the same step from the state without the mode end in the same
  state without the mode: the driver reads the flag only to name the call it makes on the
  children and to decide on \<open>runActions\<close>.
\<close>

lemma as_cancel_idem [simp]: "as_cancel (as_cancel f) = as_cancel f"
  by (cases f) simp_all

lemma call_target_as_cancel [simp]: "call_target (as_cancel f) = call_target f"
  by (cases f) simp_all

lemma forget_instr_idem [simp]: "forget_instr (forget_instr i) = forget_instr i"
  by (cases i) simp_all

lemma target_forget [simp]: "target (forget_instr i) = target i"
  by (cases i) simp_all

lemma forget_trace_idem [simp]: "forget_trace (forget_trace es) = forget_trace es"
proof (induction es)
  case Nil
  then show ?case by simp
next
  case (Cons e es)
  then show ?case by (cases e) simp_all
qed

lemma forget_mode_fields [simp]:
  "heap (forget_mode s) c = (heap s c)\<lparr>onceActions := False\<rparr>"
  "nextc (forget_mode s) = nextc s"
  "tokens (forget_mode s) = tokens s"
  "nextx (forget_mode s) = nextx s"
  "wgs (forget_mode s) = wgs s"
  "nextw (forget_mode s) = nextw s"
  "threads (forget_mode s) = map (map forget_instr) (threads s)"
  "trace (forget_mode s) = forget_trace (trace s)"
  "panicked (forget_mode s) = panicked s"
  by (simp_all add: forget_mode_def)

lemma ctx_done_forget [simp]: "ctx_done (forget_mode s) = ctx_done s"
  by (simp add: ctx_done_def fun_eq_iff)













lemma forget_instr_comp [simp]: "forget_instr \<circ> forget_instr = forget_instr"
  by (simp add: fun_eq_iff)











section \<open>The error slot\<close>

text \<open>
  Only the first step of \<open>KillWithError\<close> and \<open>CancelWithError\<close> writes an error slot, that
  of its receiver and only when it is empty; and the tree-wide functions make that call on a
  root.
\<close>

lemma exec_err_frame:
  assumes "fresh_above s" "exec t i s = Some (new, s1)" "err (heap s1 d) \<noteq> err (heap s d)"
  shows "error_target i = Some d \<and> err (heap s d) = None"
proof -
  have fr: "heap s (nextc s) = RootCascade" using assms(1) by (simp add: fresh_above_def)
  show ?thesis
  proof (cases i)
    case (Call f)
    then show ?thesis using assms(2,3) fr
      by (cases f) (auto simp: tf_defs RootCascade_def Let_def split: if_splits option.splits)
  next
    case (Shutdown c b ph)
    then show ?thesis using assms(2,3)
      by (cases ph) (auto simp: tf_defs Let_def split: if_splits option.splits)
  qed (use assms(2,3) in \<open>auto simp: tf_defs Let_def split: if_splits option.splits\<close>)
qed

lemma exec_error_calls:
  assumes "exec t i s = Some (new, s1)" "allocated s i"
  shows "(\<forall>j \<in> set new. \<forall>d. error_target j = Some d \<longrightarrow> d < nextc s \<and> parent (heap s d) = None) \<and>
         (\<exists>gs. threads s1 = threads s @ gs \<and> (\<forall>g \<in> set gs. \<forall>j \<in> set g. error_target j = None))"
proof (cases i)
  case (Call f)
  then show ?thesis using assms
    by (cases f) (auto simp: allocated_def tf_defs Let_def split: if_splits option.splits)
next
  case (Shutdown c b ph)
  then show ?thesis using assms
    by (cases ph) (auto simp: allocated_def tf_defs Let_def split: if_splits option.splits)
qed (use assms in \<open>auto simp: allocated_def tf_defs Let_def split: if_splits option.splits\<close>)

lemma errors_at_roots_step:
  assumes "inv s" "errors_at_roots s" "step t s = Some s'"
  shows "errors_at_roots s'"
proof -
  from assms(3) obtain i k new s1 where
    t: "t < length (threads s)" and th: "threads s ! t = i # k" and al: "allocated s i" and
    ex: "exec t i s = Some (new, s1)" and s': "s' = s1\<lparr>threads := (threads s1)[t := new @ k]\<rparr>"
    by (rule step_shape)
  from assms(1) have fa: "fresh_above s" and pb: "parents_below s" by (auto simp: inv_def)
  have g: "grows s s1" using exec_grows[OF fa pb ex al] .
  from assms(2) have
    pend: "\<And>t' j d. t' < length (threads s) \<Longrightarrow> j \<in> set (threads s ! t') \<Longrightarrow>
             error_target j = Some d \<Longrightarrow> d < nextc s \<and> parent (heap s d) = None"
    and slots: "\<And>d. parent (heap s d) \<noteq> None \<Longrightarrow> err (heap s d) = None"
    unfolding errors_at_roots_def by blast+
  from exec_error_calls[OF ex al] obtain gs where
    nw: "\<And>j d. j \<in> set new \<Longrightarrow> error_target j = Some d \<Longrightarrow>
           d < nextc s \<and> parent (heap s d) = None" and
    gs: "threads s1 = threads s @ gs" and
    sp: "\<And>g j. g \<in> set gs \<Longrightarrow> j \<in> set g \<Longrightarrow> error_target j = None"
    by blast
  have keep: "d < nextc s1 \<and> parent (heap s1 d) = None"
    if "d < nextc s" "parent (heap s d) = None" for d
    using that g by (auto simp: grows_def)
  have 1: "d < nextc s' \<and> parent (heap s' d) = None"
    if lt: "t' < length (threads s')" and j: "j \<in> set (threads s' ! t')"
      and e: "error_target j = Some d" for t' j d
  proof -
    have "d < nextc s \<and> parent (heap s d) = None"
    proof (cases "t' = t")
      case True
      then have "j \<in> set new \<or> j \<in> set k" using j t gs s' by (auto simp: nth_append)
      then show ?thesis
      proof
        assume "j \<in> set new"
        then show ?thesis using nw e by blast
      next
        assume "j \<in> set k"
        then have "j \<in> set (threads s ! t)" using th by simp
        then show ?thesis using pend[OF t _ e] by blast
      qed
    next
      case False
      show ?thesis
      proof (cases "t' < length (threads s)")
        case True
        then have "threads s' ! t' = threads s ! t'" using False gs s' by (simp add: nth_append)
        then show ?thesis using pend[OF True _ e] j by simp
      next
        case False
        then have "threads s' ! t' = gs ! (t' - length (threads s))"
          and "t' - length (threads s) < length gs"
          using lt gs s' \<open>t' \<noteq> t\<close> by (auto simp: nth_append)
        then have "threads s' ! t' \<in> set gs" by simp
        then show ?thesis using sp j e by fastforce
      qed
    qed
    then show ?thesis using keep s' by simp
  qed
  have 2: "err (heap s' d) = None" if p: "parent (heap s' d) \<noteq> None" for d
  proof (cases "err (heap s1 d) = err (heap s d)")
    case True
    show ?thesis
    proof (cases "d < nextc s")
      case True
      then have "parent (heap s d) \<noteq> None" using p g s' by (auto simp: grows_def)
      then show ?thesis using slots \<open>err (heap s1 d) = err (heap s d)\<close> s' by simp
    next
      case False
      then have "heap s d = RootCascade" using fa by (simp add: fresh_above_def)
      then show ?thesis using True s' by (simp add: RootCascade_def)
    qed
  next
    case False
    from exec_err_frame[OF fa ex False] have et: "error_target i = Some d" by simp
    have "i \<in> set (threads s ! t)" using th by simp
    from pend[OF t this et] have "d < nextc s" "parent (heap s d) = None" by auto
    then have "parent (heap s' d) = None" using keep s' by simp
    then show ?thesis using p by simp
  qed
  show ?thesis unfolding errors_at_roots_def using 1 2 by blast
qed

lemma errors_at_roots_run: "inv s \<Longrightarrow> errors_at_roots s \<Longrightarrow> errors_at_roots (run sched s)"
proof (induction sched arbitrary: s)
  case Nil
  then show ?case by simp
next
  case (Cons t ts)
  show ?case
  proof (cases "step t s")
    case None
    then show ?thesis using Cons by simp
  next
    case (Some s')
    then have "inv s'" "errors_at_roots s'"
      using Cons.prems inv_step errors_at_roots_step by blast+
    then show ?thesis using Cons.IH[of s'] Some by simp
  qed
qed

lemma tree_wide_no_target: "tree_wide f \<Longrightarrow> error_target (Call f) = None"
  by (cases f) simp_all

lemma errors_at_roots_start:
  assumes "list_all (list_all tree_wide) gs"
  shows "errors_at_roots (start gs)"
proof -
  have "error_target j = None" if "t < length gs" "j \<in> set (map Call (gs ! t))" for t j
  proof -
    from that(2) obtain f where f: "f \<in> set (gs ! t)" "j = Call f" by auto
    have "gs ! t \<in> set gs" using that(1) by simp
    then have "tree_wide f" using assms f(1) by (auto simp: list_all_iff)
    then show ?thesis using f(2) by (simp add: tree_wide_no_target)
  qed
  then show ?thesis
    by (auto simp: errors_at_roots_def start_def RootCascade_def)
qed

lemma step_err_frame:
  assumes "inv s" "step t s = Some s'" "err (heap s' d) \<noteq> err (heap s d)"
  shows "err (heap s d) = None \<and>
         (\<exists>e k. threads s ! t = Call (KillWithError d e) # k \<or>
                threads s ! t = Call (CancelWithError d e) # k)"
proof -
  from assms(2) obtain i k new s1 where
    th: "threads s ! t = i # k" and
    ex: "exec t i s = Some (new, s1)" and s': "s' = s1\<lparr>threads := (threads s1)[t := new @ k]\<rparr>"
    by (rule step_shape)
  from assms(1) have fa: "fresh_above s" by (simp add: inv_def)
  from assms(3) s' have "err (heap s1 d) \<noteq> err (heap s d)" by simp
  from exec_err_frame[OF fa ex this] have et: "error_target i = Some d" and n: "err (heap s d) = None"
    by simp_all
  from et have "(\<exists>e. i = Call (KillWithError d e)) \<or> (\<exists>e. i = Call (CancelWithError d e))"
    by (cases i rule: error_target.cases) auto
  then show ?thesis using th n by auto
qed

lemma shutdown_enter_step:
  assumes "c < nextc s" "t < length (threads s)" "\<not> panicked s"
    "threads s ! t = Call (if b then Kill c else Cancel c) # k"
  shows "step t s = Some
           (if \<not> isDead (heap s c)
            then (log (EvBegin t c b) (upd c (\<lambda>r. r\<lparr>isDead := True\<rparr>) s))
                   \<lparr>threads := (threads s)[t := Shutdown c b Fanout # k]\<rparr>
            else s\<lparr>threads := (threads s)[t := Return (if b then Kill c else Cancel c) Void # k]\<rparr>)"
  using assms by (cases b) (auto simp: step_def shutdown_enter_def upd_def log_def)

text \<open>
  The two local functions: with the slot set, the call changes nothing and returns
  \<open>ErrorAlreadySet\<close>; with the slot empty, it stores the error, calls \<open>Kill\<close> or \<open>Cancel\<close>
  and then returns nil. The call of \<open>Kill\<close> or \<open>Cancel\<close> that follows makes the test-and-set
  on the same Cascade.
\<close>

lemma with_error_write_once:
  assumes "c < nextc s" "t < length (threads s)" "\<not> panicked s"
    "f = (if b then KillWithError c e else CancelWithError c e)" "threads s ! t = Call f # k"
  shows "step t s = Some
           (if err (heap s c) \<noteq> None
            then s\<lparr>threads := (threads s)[t := Return f (RetErr (Some ErrorAlreadySet)) # k]\<rparr>
            else (upd c (\<lambda>r. r\<lparr>err := e\<rparr>) s)
                   \<lparr>threads := (threads s)
                      [t := Call (if b then Kill c else Cancel c) # Return f (RetErr None) # k]\<rparr>)"
  using assms by (cases b) (auto simp: step_def with_error_def upd_def Let_def)

lemma run_replicate_Suc2:
  "run (replicate (Suc (Suc n)) t) s = run [t, t] (run (replicate n t) s)"
proof -
  have "replicate (Suc (Suc n)) t = replicate n t @ [t, t]"
    using replicate_add[of n 2 t] by (simp add: numeral_2_eq_2)
  then show ?thesis using run_append[of "replicate n t" "[t, t]" s] by simp
qed

lemma enter_root:
  assumes "r < nextc s" "t < length (threads s)" "\<not> panicked s"
    "threads s ! t = Call (if b then Kill r else Cancel r) # k"
  shows "isDead (heap (run [t] s) r) \<and>
         (\<not> isDead (heap s r) \<longrightarrow>
            run [t] s = (log (EvBegin t r b) (upd r (\<lambda>x. x\<lparr>isDead := True\<rparr>) s))
                          \<lparr>threads := (threads s)[t := Shutdown r b Fanout # k]\<rparr>)"
  using shutdown_enter_step[OF assms] by (simp add: log_def upd_def)

lemma with_error_then_enter:
  assumes "r < nextc s" "t < length (threads s)" "\<not> panicked s"
    "f = (if b then KillWithError r e else CancelWithError r e)"
    "threads s ! t = Call f # k"
  shows "(err (heap s r) \<noteq> None \<longrightarrow>
           run [t] s = s\<lparr>threads := (threads s)[t := Return f (RetErr (Some ErrorAlreadySet)) # k]\<rparr>) \<and>
         (err (heap s r) = None \<longrightarrow>
           run [t] s = (upd r (\<lambda>x. x\<lparr>err := e\<rparr>) s)
                         \<lparr>threads := (threads s)
                            [t := Call (if b then Kill r else Cancel r) # Return f (RetErr None) # k]\<rparr> \<and>
           isDead (heap (run [t, t] s) r) \<and>
           (\<not> isDead (heap s r) \<longrightarrow>
              threads (run [t, t] s) ! t = Shutdown r b Fanout # Return f (RetErr None) # k \<and>
              trace (run [t, t] s) = EvBegin t r b # trace s))"
proof (cases "err (heap s r) = None")
  case False
  then have "run [t] s =
      s\<lparr>threads := (threads s)[t := Return f (RetErr (Some ErrorAlreadySet)) # k]\<rparr>"
    using with_error_write_once[OF assms] by simp
  then show ?thesis using False by blast
next
  case True
  let ?s1 = "(upd r (\<lambda>x. x\<lparr>err := e\<rparr>) s)
               \<lparr>threads := (threads s)
                  [t := Call (if b then Kill r else Cancel r) # Return f (RetErr None) # k]\<rparr>"
  have 1: "run [t] s = ?s1" using with_error_write_once[OF assms] True by simp
  have a: "r < nextc ?s1" "t < length (threads ?s1)" "\<not> panicked ?s1"
    "threads ?s1 ! t = Call (if b then Kill r else Cancel r) # Return f (RetErr None) # k"
    using assms(1-3) by (simp_all add: upd_def)
  have 2: "run [t, t] s = run [t] ?s1" using 1 by simp
  have d: "isDead (heap ?s1 r) = isDead (heap s r)" by (simp add: upd_def)
  from enter_root[OF a] have "isDead (heap (run [t] ?s1) r)"
    and "\<not> isDead (heap s r) \<longrightarrow>
          run [t] ?s1 = (log (EvBegin t r b) (upd r (\<lambda>x. x\<lparr>isDead := True\<rparr>) ?s1))
                          \<lparr>threads := (threads ?s1)[t := Shutdown r b Fanout # Return f (RetErr None) # k]\<rparr>"
    using d by simp_all
  then have "isDead (heap (run [t, t] s) r)"
    and "\<not> isDead (heap s r) \<longrightarrow>
          threads (run [t, t] s) ! t = Shutdown r b Fanout # Return f (RetErr None) # k \<and>
          trace (run [t, t] s) = EvBegin t r b # trace s"
    unfolding 2 using assms(2) by (simp_all add: log_def upd_def)
  then show ?thesis using 1 True by blast
qed

text \<open>The same two results after a schedule that has brought the goroutine to the call.\<close>

lemma enter_root_after:
  assumes "r < nextc s" "t < length (threads s)" "\<not> panicked s"
    "run sch s = s\<lparr>threads := (threads s)[t := Call (if b then Kill r else Cancel r) # k]\<rparr>"
  shows "isDead (heap (run (sch @ [t]) s) r) \<and>
         (\<not> isDead (heap s r) \<longrightarrow>
            run (sch @ [t]) s = (log (EvBegin t r b) (upd r (\<lambda>x. x\<lparr>isDead := True\<rparr>) s))
                          \<lparr>threads := (threads s)[t := Shutdown r b Fanout # k]\<rparr>)"
proof -
  let ?s1 = "s\<lparr>threads := (threads s)[t := Call (if b then Kill r else Cancel r) # k]\<rparr>"
  have a: "r < nextc ?s1" "t < length (threads ?s1)" "\<not> panicked ?s1"
    "threads ?s1 ! t = Call (if b then Kill r else Cancel r) # k"
    using assms(1-3) by simp_all
  have e: "run (sch @ [t]) s = run [t] ?s1" unfolding run_append assms(4) ..
  have u: "(log (EvBegin t r b) (upd r (\<lambda>x. x\<lparr>isDead := True\<rparr>) ?s1))
             \<lparr>threads := (threads ?s1)[t := Shutdown r b Fanout # k]\<rparr> =
           (log (EvBegin t r b) (upd r (\<lambda>x. x\<lparr>isDead := True\<rparr>) s))
             \<lparr>threads := (threads s)[t := Shutdown r b Fanout # k]\<rparr>"
    by (simp add: log_def upd_def)
  have d: "isDead (heap ?s1 r) = isDead (heap s r)" by simp
  from enter_root[OF a] show ?thesis unfolding e u d .
qed

lemma with_error_after:
  assumes "r < nextc s" "t < length (threads s)" "\<not> panicked s"
    "f = (if b then KillWithError r e else CancelWithError r e)"
    "run sch s = s\<lparr>threads := (threads s)[t := Call f # k]\<rparr>"
  shows "(err (heap s r) \<noteq> None \<longrightarrow>
           run (sch @ [t]) s =
             s\<lparr>threads := (threads s)[t := Return f (RetErr (Some ErrorAlreadySet)) # k]\<rparr>) \<and>
         (err (heap s r) = None \<longrightarrow>
           run (sch @ [t]) s = (upd r (\<lambda>x. x\<lparr>err := e\<rparr>) s)
                         \<lparr>threads := (threads s)
                            [t := Call (if b then Kill r else Cancel r) # Return f (RetErr None) # k]\<rparr> \<and>
           isDead (heap (run (sch @ [t, t]) s) r) \<and>
           (\<not> isDead (heap s r) \<longrightarrow>
              threads (run (sch @ [t, t]) s) ! t = Shutdown r b Fanout # Return f (RetErr None) # k \<and>
              trace (run (sch @ [t, t]) s) = EvBegin t r b # trace s))"
proof -
  let ?s1 = "s\<lparr>threads := (threads s)[t := Call f # k]\<rparr>"
  have a: "r < nextc ?s1" "t < length (threads ?s1)" "\<not> panicked ?s1"
    using assms(1-3) by simp_all
  have a5: "threads ?s1 ! t = Call f # k" using assms(2) by simp
  have e1: "run (sch @ [t]) s = run [t] ?s1" unfolding run_append assms(5) ..
  have e2: "run (sch @ [t, t]) s = run [t, t] ?s1" unfolding run_append assms(5) ..
  have u1: "?s1\<lparr>threads := (threads ?s1)[t := Return f (RetErr (Some ErrorAlreadySet)) # k]\<rparr> =
            s\<lparr>threads := (threads s)[t := Return f (RetErr (Some ErrorAlreadySet)) # k]\<rparr>"
    by simp
  have u2: "(upd r (\<lambda>x. x\<lparr>err := e\<rparr>) ?s1)
              \<lparr>threads := (threads ?s1)
                 [t := Call (if b then Kill r else Cancel r) # Return f (RetErr None) # k]\<rparr> =
            (upd r (\<lambda>x. x\<lparr>err := e\<rparr>) s)
              \<lparr>threads := (threads s)
                 [t := Call (if b then Kill r else Cancel r) # Return f (RetErr None) # k]\<rparr>"
    by (simp add: upd_def)
  have d: "err (heap ?s1 r) = err (heap s r)" "isDead (heap ?s1 r) = isDead (heap s r)"
    "trace ?s1 = trace s" by simp_all
  from with_error_then_enter[OF a assms(4) a5] show ?thesis unfolding e1 e2 u1 u2 d .
qed

section \<open>The claims\<close>

lemma reach: "inv (run sched (start gs)) \<and> hist_ok (run sched (start gs))"
  using inv_reach hist_reach by blast

text \<open>
  Claim C1. Children before parent: in every schedule, also when the shutdown of the child was
  started by another caller before the parent's shutdown reaches it, the child raises done
  before the parent does.

  The code does not do this. In \<open>child_killed_first\<close> the fan-out goroutine of the parent calls
  \<open>Kill\<close> on a child whose \<open>isDead\<close> is already set; that call returns at once, the parent's
  \<open>wg.Wait()\<close> returns, and the parent runs all of \<open>closeAndClean\<close>: the parent's done channel
  is closed while the child's is open and the child's driver (goroutine 0) is blocked.
\<close>

theorem parent_done_before_child:
  "done_ch (heap child_killed_first 0) \<and> \<not> done_ch (heap child_killed_first 1) \<and>
   parent (heap child_killed_first 1) = Some 0 \<and>
   threads child_killed_first = [[Shutdown 1 True WaitDead], [], []] \<and>
   Option.is_none (step 0 child_killed_first) \<and>
   trace child_killed_first =
     [EvReturn 1 (Kill 0) Void, EvDone 0, EvActions 0 [], EvDead 0, EvDying 0,
      EvReturn 2 (Kill 1) Void, EvBegin 1 0 True, EvDying 1, EvBegin 0 1 True]"
  unfolding child_killed_first_def by code_simp

text \<open>
  Claim C2. The dead event is raised only after the dying event has been raised and while
  \<open>tracked\<close> is zero; so dying is raised no later than dead, and dead no later than done.

  Amended: the dead event is raised only after \<open>isDead\<close> has been set and in a step in which
  \<open>tracked\<close> is zero, and when done is raised both dying and dead have been raised. (Dead may
  be raised before dying: \<open>Mark\<close> and \<open>UnMark\<close> test \<open>isDead\<close>, which \<open>Kill\<close> sets before it
  waits for the children, and dying is closed only after that wait.)
\<close>

theorem dead_needs_isDead_and_untracked:
  assumes "s = run sched (start gs)"
  shows "(\<forall>t s'. step t s = Some s' \<longrightarrow> \<not> dead_ch (heap s c) \<longrightarrow> dead_ch (heap s' c) \<longrightarrow>
            isDead (heap s c) \<and> tracked (heap s c) = 0 \<and> tracked (heap s' c) = 0) \<and>
         (dead_ch (heap s c) \<longrightarrow> isDead (heap s c)) \<and>
         (done_ch (heap s c) \<longrightarrow> dying_ch (heap s c) \<and> dead_ch (heap s c))"
proof -
  have i: "inv s" using assms reach by simp
  then have "flags_ok s" by (simp add: inv_def)
  then show ?thesis using step_dead_raise[OF i] by (auto simp: flags_ok_def)
qed

theorem dead_needs_isDead_and_untracked_witness:
  "\<not> dead_ch (heap unmark_race_before 0) \<and> dead_ch (heap unmark_race 0) \<and>
   isDead (heap unmark_race_before 0) \<and> tracked (heap unmark_race_before 0) = 0 \<and>
   done_ch (heap scenario_A 0) \<and> dying_ch (heap scenario_A 0) \<and> dead_ch (heap scenario_A 0) \<and>
   isDead (heap scenario_A 0)"
proof -
  have n: "\<not> Option.is_none (step 0 unmark_race_before)"
    unfolding unmark_race_before_def by code_simp
  then obtain s' where st: "step 0 unmark_race_before = Some s'"
    by (auto simp: Option.is_none_def)
  then have s': "unmark_race = s'" by (simp add: unmark_race_def)
  have a: "\<not> dead_ch (heap unmark_race_before 0)"
    unfolding unmark_race_before_def by code_simp
  have b: "dead_ch (heap unmark_race 0)"
    unfolding unmark_race_def unmark_race_before_def by code_simp
  have d: "done_ch (heap scenario_A 0)" unfolding scenario_A_def by code_simp
  from dead_needs_isDead_and_untracked[OF unmark_race_before_def, of 0] st a b s'
  have 1: "isDead (heap unmark_race_before 0) \<and> tracked (heap unmark_race_before 0) = 0"
    by auto
  from dead_needs_isDead_and_untracked[OF scenario_A_def, of 0] d
  have 2: "dying_ch (heap scenario_A 0) \<and> dead_ch (heap scenario_A 0) \<and> isDead (heap scenario_A 0)"
    by blast
  show ?thesis using a b d 1 2 by simp
qed

theorem dead_before_dying:
  "dead_ch (heap unmark_race 0) \<and> \<not> dying_ch (heap unmark_race 0) \<and>
   threads unmark_race =
     [[], [Shutdown 0 True (WgWait 0)], [Shutdown 1 True WaitDead, WgDone 0]] \<and>
   Option.is_none (step 1 unmark_race) \<and> Option.is_none (step 2 unmark_race) \<and>
   trace unmark_race = [EvDead 0, EvDying 1, EvBegin 2 1 True, EvBegin 1 0 True]"
  unfolding unmark_race_def unmark_race_before_def by code_simp

text \<open>
  Claim C3. Happens-before chain of the driver: the write of \<open>isDead\<close>, then the dying event,
  then the completion of the children's shutdown, then the dead event; in particular dying
  is raised before the driver starts waiting on its children.

  Amended: the write of \<open>isDead\<close> happens before the dying event and before the dead event;
  the dying event is not raised while the driver spawns the shutdown of its children or
  waits for those calls in \<open>wg.Wait()\<close>, it is raised in \<open>closeAndClean\<close> after that wait and
  after the child set has been cleared; and dying and dead are both raised before done.
\<close>

theorem dying_after_wait_for_children:
  assumes "s = run sched (start gs)"
  shows "(dying_ch (heap s c) \<longrightarrow> isDead (heap s c) \<and> children (heap s c) = None) \<and>
         (dead_ch (heap s c) \<longrightarrow> isDead (heap s c)) \<and>
         (\<forall>t b w. t < length (threads s) \<longrightarrow>
            Shutdown c b Fanout \<in> set (threads s ! t) \<or>
            Shutdown c b (WgWait w) \<in> set (threads s ! t) \<longrightarrow>
            isDead (heap s c) \<and> \<not> dying_ch (heap s c) \<and> \<not> done_ch (heap s c)) \<and>
         (done_ch (heap s c) \<longrightarrow> dying_ch (heap s c) \<and> dead_ch (heap s c))"
proof -
  have i: "inv s" using assms reach by simp
  then have f: "flags_ok s" and p: "pcs_ok s" by (simp_all add: inv_def)
  have "isDead (heap s c) \<and> \<not> dying_ch (heap s c) \<and> \<not> done_ch (heap s c)"
    if "t < length (threads s)" "Shutdown c b ph \<in> set (threads s ! t)" "rank ph \<le> 1" for t b ph
  proof -
    from pcs_okD[OF p that(1,2)] show ?thesis using that(3) by auto
  qed
  then have "\<forall>t b w. t < length (threads s) \<longrightarrow>
            Shutdown c b Fanout \<in> set (threads s ! t) \<or>
            Shutdown c b (WgWait w) \<in> set (threads s ! t) \<longrightarrow>
            isDead (heap s c) \<and> \<not> dying_ch (heap s c) \<and> \<not> done_ch (heap s c)"
    by (metis rank.simps(1) rank.simps(2) le_refl zero_le)
  then show ?thesis using f by (auto simp: flags_ok_def)
qed

theorem dying_after_wait_for_children_witness:
  "threads parent_waits ! 0 = [Shutdown 0 True (WgWait 0)] \<and>
   isDead (heap parent_waits 0) \<and> \<not> dying_ch (heap parent_waits 0) \<and>
   done_ch (heap scenario_A 0) \<and> dying_ch (heap scenario_A 0) \<and> dead_ch (heap scenario_A 0) \<and>
   isDead (heap scenario_A 0) \<and> children (heap scenario_A 0) = None"
proof -
  have a: "threads parent_waits ! 0 = [Shutdown 0 True (WgWait 0)]"
    and l: "0 < length (threads parent_waits)"
    unfolding parent_waits_def by code_simp+
  have m: "Shutdown 0 True (WgWait 0) \<in> set (threads parent_waits ! 0)" using a by simp
  from dying_after_wait_for_children[OF parent_waits_def, of 0] l m
  have 1: "isDead (heap parent_waits 0) \<and> \<not> dying_ch (heap parent_waits 0)" by blast
  have d: "done_ch (heap scenario_A 0)" unfolding scenario_A_def by code_simp
  from dying_after_wait_for_children[OF scenario_A_def, of 0] d
  have 2: "dying_ch (heap scenario_A 0) \<and> dead_ch (heap scenario_A 0) \<and>
           isDead (heap scenario_A 0) \<and> children (heap scenario_A 0) = None"
    by blast
  show ?thesis using a d 1 2 by simp
qed

theorem child_done_before_parent_dying:
  "done_ch (heap parent_waits 1) \<and> parent (heap parent_waits 1) = Some 0 \<and>
   isDead (heap parent_waits 0) \<and> \<not> dying_ch (heap parent_waits 0) \<and>
   threads parent_waits = [[Shutdown 0 True (WgWait 0)], [WgDone 0]] \<and>
   trace parent_waits =
     [EvReturn 1 (Kill 1) Void, EvDone 1, EvActions 1 [], EvDead 1, EvDying 1,
      EvBegin 1 1 True, EvBegin 0 0 True]"
  unfolding parent_waits_def by code_simp

text \<open>
  The driver of \<open>Kill\<close> and the driver of \<open>Cancel\<close> make the same step at every program point
  but \<open>RunActions\<close>, up to the goroutines (the children are sent \<open>Kill\<close> or \<open>Cancel\<close>) and the
  name under which the call returns; at \<open>RunActions\<close> the driver of \<open>Cancel\<close> does nothing.
  Both go on to the same program point, and both enter the protocol on the same condition,
  with the same write of \<open>isDead\<close>.
\<close>

lemma kill_and_cancel_differ_in_actions_only:
  "ph \<noteq> RunActions \<Longrightarrow>
     map_option (\<lambda>(new, s'). s'\<lparr>threads := []\<rparr>) (shutdown_step c True ph s) =
     map_option (\<lambda>(new, s'). s'\<lparr>threads := []\<rparr>) (shutdown_step c False ph s)"
  "shutdown_step c False RunActions s = Some ([Shutdown c False CancelTracked], s)"
  "snd (shutdown_enter t c True s)\<lparr>trace := []\<rparr> = snd (shutdown_enter t c False s)\<lparr>trace := []\<rparr>"
  "map_option (\<lambda>(new, s'). map forget_instr new) (shutdown_step c True ph s) =
     map_option (\<lambda>(new, s'). map forget_instr new) (shutdown_step c False ph s)"
  "fst (shutdown_enter t c b s) =
     (if \<not> isDead (heap s c) then [Shutdown c b Fanout]
      else [Return (if b then Kill c else Cancel c) Void])"
  by (cases ph; simp add: spawn_def shutdown_enter_def log_def upd_def Let_def)+



text \<open>
  Claim C5. Hook ordering: whatever sequence of \<open>DoOnKill\<close> (append at the tail) and
  \<open>DoFirstOnKill\<close> (prepend at the head) was made on a Cascade, a graceful shutdown executes
  the actions head to tail in the order those insertions imply; after append A1, append A2,
  prepend A3, kill, the order is A3, A1, A2.

  Wherever the trace holds an execution of \<open>runActions\<close> on \<open>c\<close>, the list it executed is
  \<open>hook_order\<close> of the part of the trace before it.
\<close>

theorem actions_run_in_registration_order:
  assumes "trace (run sched (start gs)) = post @ EvActions c acts # pre"
  shows "acts = hook_order c pre"
proof -
  have "hist_ok (run sched (start gs))" using reach by simp
  then have "runs c (trace (run sched (start gs))) = queued c (trace (run sched (start gs)))"
    by (simp add: hist_ok_def runs_match_def)
  then show ?thesis using assms runs_match_split by simp
qed

theorem actions_run_in_registration_order_witness:
  "trace scenario_A =
     [EvReturn 0 (Kill 0) Void, EvDone 0] @ EvActions 0 [3, 1, 2] #
     [EvDead 0, EvDying 0, EvBegin 0 0 True, EvHook 0 3 True, EvHook 0 2 False, EvHook 0 1 False] \<and>
   [3, 1, 2] =
     hook_order 0
       [EvDead 0, EvDying 0, EvBegin 0 0 True, EvHook 0 3 True, EvHook 0 2 False, EvHook 0 1 False]"
proof -
  have t: "trace (run (replicate 15 0)
             (start [[NewRoot, DoOnKill 0 1, DoOnKill 0 2, DoFirstOnKill 0 3, Kill 0]])) =
     [EvReturn 0 (Kill 0) Void, EvDone 0] @ EvActions 0 [3, 1, 2] #
     [EvDead 0, EvDying 0, EvBegin 0 0 True, EvHook 0 3 True, EvHook 0 2 False, EvHook 0 1 False]"
    by code_simp
  from actions_run_in_registration_order[OF t] t show ?thesis
    unfolding scenario_A_def by blast
qed

text \<open>
  Claim C6. Write-once error slot: each of \<open>KillWithError\<close>, \<open>CancelWithError\<close>,
  \<open>KillAllWithError\<close> and \<open>CancelAllWithError\<close>, called when the error slot of its target is
  not empty, returns an \<open>ErrorAlreadySet\<close> error to the caller and does not drive shutdown.

  The two tree-wide functions have no result: in \<open>second_error\<close> the inner \<open>KillWithError\<close>
  returns the error, and \<open>KillAllWithError\<close> drops it and returns nothing to its caller. The
  slot keeps the first error.
\<close>

theorem killAllWithError_drops_error:
  "trace second_error =
     [EvReturn 0 (KillAllWithError 0 (Some (UserError 2))) Void,
      EvReturn 0 (KillWithError 0 (Some (UserError 2))) (RetErr (Some ErrorAlreadySet)),
      EvReturn 0 (KillWithError 0 (Some (UserError 1))) (RetErr None),
      EvReturn 0 (Kill 0) Void, EvDone 0, EvActions 0 [], EvDead 0, EvDying 0,
      EvBegin 0 0 True] \<and>
   err (heap second_error 0) = Some (UserError 1) \<and> threads second_error = [[]]"
  unfolding second_error_def by code_simp

text \<open>
  At most one call ever wins the test-and-set on a Cascade, and \<open>isDead\<close> is set from then on.
\<close>

lemma one_driver:
  assumes "s = run sched (start gs)" "EvBegin t c b \<in> set (trace s)"
    "EvBegin t' c b' \<in> set (trace s)"
  shows "t' = t \<and> b' = b \<and> isDead (heap s c)"
proof -
  have "inv s" using assms(1) reach by simp
  then have "begins_ok s" by (simp add: inv_def)
  then show ?thesis using assms(2,3) unfolding begins_ok_def by blast
qed

text \<open>
  Claim C7. Concurrent shutdown calls are linearised by the test-and-set on \<open>isDead\<close>: one call
  drives the protocol, and every other \<open>Kill\<close>/\<open>Cancel\<close> call on that Cascade returns only
  after the driver has raised done.

  A call that loses the test-and-set returns at once. In \<open>second_kill\<close> the \<open>Kill\<close> of
  goroutine 1 has returned while the driver (goroutine 0) is blocked in \<open>c.Wait()\<close> and
  neither dead nor done is raised.
\<close>

theorem second_kill_returns_before_done:
  "trace second_kill = [EvReturn 1 (Kill 0) Void, EvDying 0, EvBegin 0 0 True] \<and>
   threads second_kill = [[Shutdown 0 True WaitDead], []] \<and>
   \<not> dead_ch (heap second_kill 0) \<and> \<not> done_ch (heap second_kill 0) \<and>
   Option.is_none (step 0 second_kill)"
  unfolding second_kill_def by code_simp

text \<open>
  Claim C8. \<open>KillAll\<close>, \<open>CancelAll\<close> and their with-error variants, called on any Cascade,
  walk the parent links to the root and call \<open>Kill\<close>/\<open>Cancel\<close> (\<open>KillWithError\<close>/
  \<open>CancelWithError\<close>) there; the with-error variants write the error slot of the root only.

  In a reachable state let goroutine \<open>t\<close> be about to make such a call on \<open>c\<close>, and let it
  run alone for one step per Cascade on the path from \<open>c\<close> to its root \<open>r\<close>: then nothing but
  the goroutine has changed, and its next instruction is the call of the local function on
  \<open>r\<close>, which has no parent (\<open>r = c\<close> when \<open>c\<close> is a root). The step after that, of a
  with-error variant, leaves every Cascade but \<open>r\<close> as it was, and stores the error in \<open>r\<close>
  if its slot was empty.

  The call goes on at the root:
  \<^item> after the walk of \<open>KillAll\<close>/\<open>CancelAll\<close>, the next step is the test-and-set of
    \<open>Kill\<close>/\<open>Cancel\<close> on \<open>r\<close>: \<open>isDead\<close> of \<open>r\<close> is set, and when it was not set before, the
    goroutine is the driver of \<open>r\<close> in the mode of the call (\<open>CancelAll\<close> drives \<open>Cancel\<close>,
    not \<open>Kill\<close>) and nothing else has changed;
  \<^item> after the walk of a with-error variant, the next step either finds the slot of \<open>r\<close> set
    and only returns \<open>ErrorAlreadySet\<close> from the local function, or stores the error in \<open>r\<close>
    and has \<open>Kill\<close>/\<open>Cancel\<close> on \<open>r\<close> as the next instruction, followed by the return of nil;
    the step after that is the test-and-set on \<open>r\<close>, as above.

  No other Cascade's slot is written, during the call or ever:
  \<^item> a step of any goroutine that changes the error slot of a Cascade \<open>d\<close> is the first step
    of \<open>KillWithError\<close> or \<open>CancelWithError\<close> on \<open>d\<close> itself, and the slot was empty (the
    drivers, the fan-out to the children and every other function leave all slots alone);
  \<^item> in a program whose goroutines make no call of \<open>KillWithError\<close> or \<open>CancelWithError\<close>
    themselves, whatever tree-wide calls they make and however the shutdowns interleave,
    the error slot of every Cascade that has a parent is empty in every state.
\<close>

theorem kill_all_acts_on_root:
  assumes "s = run sched (start gs)" "t < length (threads s)" "c < nextc s" "\<not> panicked s"
    "r = root_of (heap s) c c" "n = Suc (depth_of (heap s) c c)"
  shows "parent (heap s r) = None \<and> r \<le> c \<and>
    (threads s ! t = Call (KillAll c) # k \<longrightarrow>
       (\<exists>k'. run (replicate n t) s = s\<lparr>threads := (threads s)[t := Call (Kill r) # k']\<rparr>)) \<and>
    (threads s ! t = Call (CancelAll c) # k \<longrightarrow>
       (\<exists>k'. run (replicate n t) s = s\<lparr>threads := (threads s)[t := Call (Cancel r) # k']\<rparr>)) \<and>
    (threads s ! t = Call (KillAllWithError c e) # k \<longrightarrow>
       (\<exists>k'. run (replicate n t) s =
               s\<lparr>threads := (threads s)[t := Call (KillWithError r e) # k']\<rparr>) \<and>
       (\<forall>d. d \<noteq> r \<longrightarrow> heap (run (replicate (Suc n) t) s) d = heap s d) \<and>
       err (heap (run (replicate (Suc n) t) s) r) =
         (if err (heap s r) = None then e else err (heap s r))) \<and>
    (threads s ! t = Call (CancelAllWithError c e) # k \<longrightarrow>
       (\<exists>k'. run (replicate n t) s =
               s\<lparr>threads := (threads s)[t := Call (CancelWithError r e) # k']\<rparr>) \<and>
       (\<forall>d. d \<noteq> r \<longrightarrow> heap (run (replicate (Suc n) t) s) d = heap s d) \<and>
       err (heap (run (replicate (Suc n) t) s) r) =
         (if err (heap s r) = None then e else err (heap s r))) \<and>
    (\<forall>b. threads s ! t = Call (if b then KillAll c else CancelAll c) # k \<longrightarrow>
       isDead (heap (run (replicate (Suc n) t) s) r) \<and>
       (\<not> isDead (heap s r) \<longrightarrow>
          (\<exists>k'. run (replicate (Suc n) t) s =
                  (log (EvBegin t r b) (upd r (\<lambda>x. x\<lparr>isDead := True\<rparr>) s))
                    \<lparr>threads := (threads s)[t := Shutdown r b Fanout # k']\<rparr>))) \<and>
    (\<forall>b. threads s ! t = Call (if b then KillAllWithError c e else CancelAllWithError c e) # k \<longrightarrow>
       (err (heap s r) \<noteq> None \<longrightarrow>
          (\<exists>k'. run (replicate (Suc n) t) s =
                  s\<lparr>threads := (threads s)
                      [t := Return (if b then KillWithError r e else CancelWithError r e)
                              (RetErr (Some ErrorAlreadySet)) # k']\<rparr>)) \<and>
       (err (heap s r) = None \<longrightarrow>
          (\<exists>k'. run (replicate (Suc n) t) s =
                  (upd r (\<lambda>x. x\<lparr>err := e\<rparr>) s)
                    \<lparr>threads := (threads s)
                       [t := Call (if b then Kill r else Cancel r) #
                             Return (if b then KillWithError r e else CancelWithError r e)
                               (RetErr None) # k']\<rparr> \<and>
                (\<not> isDead (heap s r) \<longrightarrow>
                   threads (run (replicate (Suc (Suc n)) t) s) ! t =
                     Shutdown r b Fanout #
                     Return (if b then KillWithError r e else CancelWithError r e)
                       (RetErr None) # k')) \<and>
          isDead (heap (run (replicate (Suc (Suc n)) t) s) r) \<and>
          (\<not> isDead (heap s r) \<longrightarrow>
             trace (run (replicate (Suc (Suc n)) t) s) = EvBegin t r b # trace s))) \<and>
    (\<forall>t' s' d. step t' s = Some s' \<longrightarrow> err (heap s' d) \<noteq> err (heap s d) \<longrightarrow>
       err (heap s d) = None \<and>
       (\<exists>e' k'. threads s ! t' = Call (KillWithError d e') # k' \<or>
                threads s ! t' = Call (CancelWithError d e') # k')) \<and>
    (list_all (list_all tree_wide) gs \<longrightarrow>
       (\<forall>sched2 d. parent (heap (run sched2 s) d) \<noteq> None \<longrightarrow>
          err (heap (run sched2 s) d) = None))"
proof -
  have i: "inv s" using assms(1) reach by simp
  then have pb: "parents_below s" by (simp add: inv_def)
  have root: "parent (heap s r) = None \<and> r \<le> c"
  proof -
    let ?s0 = "s\<lparr>threads := [[Call (KillAll c)]], panicked := False\<rparr>"
    have "parents_below ?s0" using pb by (simp add: parents_below_def)
    from climb[of KillAll Kill ?s0 c c 0 "[]", OF _ _ this] assms(3,5) show ?thesis by simp
  qed
  have rn: "r < nextc s" using root assms(3) by simp
  have ka: "\<exists>k'. run (replicate n t) s = s\<lparr>threads := (threads s)[t := Call (Kill r) # k']\<rparr>"
    if "threads s ! t = Call (KillAll c) # k"
    using climb[of KillAll Kill s c c t k, OF _ _ pb] assms(2-6) that by simp
  have ca: "\<exists>k'. run (replicate n t) s = s\<lparr>threads := (threads s)[t := Call (Cancel r) # k']\<rparr>"
    if "threads s ! t = Call (CancelAll c) # k"
    using climb[of CancelAll Cancel s c c t k, OF _ _ pb] assms(2-6) that by simp
  have we: "(\<forall>d. d \<noteq> r \<longrightarrow> heap (run (replicate (Suc n) t) s) d = heap s d) \<and>
       err (heap (run (replicate (Suc n) t) s) r) =
         (if err (heap s r) = None then e else err (heap s r))"
    if "run (replicate n t) s =
          s\<lparr>threads := (threads s)[t := Call (if b then KillWithError r e else CancelWithError r e) # k']\<rparr>"
    for b k'
  proof -
    let ?s1 = "s\<lparr>threads := (threads s)[t := Call (if b then KillWithError r e else CancelWithError r e) # k']\<rparr>"
    have "r < nextc ?s1" "t < length (threads ?s1)" "\<not> panicked ?s1"
      "threads ?s1 ! t = Call (if b then KillWithError r e else CancelWithError r e) # k'"
      using root assms(2-4) by simp_all
    from with_error_step[OF this] obtain s2 where
      s2: "step t ?s1 = Some s2" "\<forall>d. d \<noteq> r \<longrightarrow> heap s2 d = heap ?s1 d"
      "err (heap s2 r) = (if err (heap ?s1 r) = None then e else err (heap ?s1 r))"
      by blast
    have "run (replicate (Suc n) t) s = run [t] (run (replicate n t) s)"
      by (rule run_replicate_Suc)
    then have "run (replicate (Suc n) t) s = s2" using that s2(1) by simp
    then show ?thesis using s2(2,3) by simp
  qed
  have kwalk: "\<exists>k'. run (replicate n t) s =
               s\<lparr>threads := (threads s)[t := Call (KillWithError r e) # k']\<rparr>"
    if "threads s ! t = Call (KillAllWithError c e) # k"
    using climb[of "\<lambda>c. KillAllWithError c e" "\<lambda>c. KillWithError c e" s c c t k, OF _ _ pb]
      assms(2-6) that by simp
  have cwalk: "\<exists>k'. run (replicate n t) s =
               s\<lparr>threads := (threads s)[t := Call (CancelWithError r e) # k']\<rparr>"
    if "threads s ! t = Call (CancelAllWithError c e) # k"
    using climb[of "\<lambda>c. CancelAllWithError c e" "\<lambda>c. CancelWithError c e" s c c t k, OF _ _ pb]
      assms(2-6) that by simp
  have kw: "(\<exists>k'. run (replicate n t) s =
               s\<lparr>threads := (threads s)[t := Call (KillWithError r e) # k']\<rparr>) \<and>
       (\<forall>d. d \<noteq> r \<longrightarrow> heap (run (replicate (Suc n) t) s) d = heap s d) \<and>
       err (heap (run (replicate (Suc n) t) s) r) =
         (if err (heap s r) = None then e else err (heap s r))"
    if "threads s ! t = Call (KillAllWithError c e) # k"
  proof -
    from kwalk[OF that] obtain k' where k': "run (replicate n t) s =
               s\<lparr>threads := (threads s)[t := Call (KillWithError r e) # k']\<rparr>" by auto
    then show ?thesis using we[of True k'] by auto
  qed
  have cw: "(\<exists>k'. run (replicate n t) s =
               s\<lparr>threads := (threads s)[t := Call (CancelWithError r e) # k']\<rparr>) \<and>
       (\<forall>d. d \<noteq> r \<longrightarrow> heap (run (replicate (Suc n) t) s) d = heap s d) \<and>
       err (heap (run (replicate (Suc n) t) s) r) =
         (if err (heap s r) = None then e else err (heap s r))"
    if "threads s ! t = Call (CancelAllWithError c e) # k"
  proof -
    from cwalk[OF that] obtain k' where k': "run (replicate n t) s =
               s\<lparr>threads := (threads s)[t := Call (CancelWithError r e) # k']\<rparr>" by auto
    then show ?thesis using we[of False k'] by auto
  qed
  have r1: "replicate n t @ [t] = replicate (Suc n) t"
    by (simp add: replicate_append_same)
  have r2: "replicate n t @ [t, t] = replicate (Suc (Suc n)) t"
    using replicate_add[of n 2 t] by (simp add: numeral_2_eq_2)
  have en: "isDead (heap (run (replicate (Suc n) t) s) r) \<and>
       (\<not> isDead (heap s r) \<longrightarrow>
          (\<exists>k'. run (replicate (Suc n) t) s =
                  (log (EvBegin t r b) (upd r (\<lambda>x. x\<lparr>isDead := True\<rparr>) s))
                    \<lparr>threads := (threads s)[t := Shutdown r b Fanout # k']\<rparr>))"
    if th: "threads s ! t = Call (if b then KillAll c else CancelAll c) # k" for b
  proof -
    have "\<exists>k'. run (replicate n t) s =
            s\<lparr>threads := (threads s)[t := Call (if b then Kill r else Cancel r) # k']\<rparr>"
      using ka ca th by (cases b) simp_all
    then obtain k' where "run (replicate n t) s =
            s\<lparr>threads := (threads s)[t := Call (if b then Kill r else Cancel r) # k']\<rparr>" ..
    from enter_root_after[OF rn assms(2,4) this] show ?thesis unfolding r1 by blast
  qed
  have ew: "(err (heap s r) \<noteq> None \<longrightarrow>
          (\<exists>k'. run (replicate (Suc n) t) s =
                  s\<lparr>threads := (threads s)
                      [t := Return (if b then KillWithError r e else CancelWithError r e)
                              (RetErr (Some ErrorAlreadySet)) # k']\<rparr>)) \<and>
       (err (heap s r) = None \<longrightarrow>
          (\<exists>k'. run (replicate (Suc n) t) s =
                  (upd r (\<lambda>x. x\<lparr>err := e\<rparr>) s)
                    \<lparr>threads := (threads s)
                       [t := Call (if b then Kill r else Cancel r) #
                             Return (if b then KillWithError r e else CancelWithError r e)
                               (RetErr None) # k']\<rparr> \<and>
                (\<not> isDead (heap s r) \<longrightarrow>
                   threads (run (replicate (Suc (Suc n)) t) s) ! t =
                     Shutdown r b Fanout #
                     Return (if b then KillWithError r e else CancelWithError r e)
                       (RetErr None) # k')) \<and>
          isDead (heap (run (replicate (Suc (Suc n)) t) s) r) \<and>
          (\<not> isDead (heap s r) \<longrightarrow>
             trace (run (replicate (Suc (Suc n)) t) s) = EvBegin t r b # trace s))"
    if th: "threads s ! t = Call (if b then KillAllWithError c e else CancelAllWithError c e) # k"
    for b
  proof -
    have "\<exists>k'. run (replicate n t) s =
            s\<lparr>threads := (threads s)
                [t := Call (if b then KillWithError r e else CancelWithError r e) # k']\<rparr>"
      using kwalk cwalk th by (cases b) simp_all
    then obtain k' where "run (replicate n t) s =
            s\<lparr>threads := (threads s)
                [t := Call (if b then KillWithError r e else CancelWithError r e) # k']\<rparr>" ..
    from with_error_after[OF rn assms(2,4) refl this] show ?thesis unfolding r1 r2 by blast
  qed
  have fr: "err (heap s d) = None \<and>
       (\<exists>e' k'. threads s ! t' = Call (KillWithError d e') # k' \<or>
                threads s ! t' = Call (CancelWithError d e') # k')"
    if "step t' s = Some s'" "err (heap s' d) \<noteq> err (heap s d)" for t' s' d
    using step_err_frame[OF i that] .
  have tw: "err (heap (run sched2 s) d) = None"
    if "list_all (list_all tree_wide) gs" "parent (heap (run sched2 s) d) \<noteq> None" for sched2 d
  proof -
    have "errors_at_roots (start gs)" using that(1) by (rule errors_at_roots_start)
    then have "errors_at_roots s"
      unfolding assms(1) using errors_at_roots_run[OF inv_start] by blast
    then have "errors_at_roots (run sched2 s)" using errors_at_roots_run[OF i] by blast
    then show ?thesis using that(2) unfolding errors_at_roots_def by blast
  qed
  show ?thesis
    apply (intro conjI)
    subgoal using root by blast
    subgoal using root by blast
    subgoal using ka by blast
    subgoal using ca by blast
    subgoal using kw by blast
    subgoal using cw by blast
    subgoal using en by blast
    subgoal using ew by blast
    subgoal using fr by blast
    subgoal using tw by blast
    done
qed

theorem kill_all_acts_on_root_witness:
  "threads scenario_G ! 0 = [Call (KillAllWithError 2 (Some (UserError 7)))] \<and>
   root_of (heap scenario_G) 2 2 = 0 \<and> depth_of (heap scenario_G) 2 2 = 2 \<and>
   parent (heap scenario_G 0) = None \<and>
   heap (run (replicate 4 0) scenario_G) 1 = heap scenario_G 1 \<and>
   heap (run (replicate 4 0) scenario_G) 2 = heap scenario_G 2 \<and>
   err (heap scenario_G 1) = None \<and> err (heap scenario_G 2) = None \<and>
   err (heap (run (replicate 4 0) scenario_G) 0) = Some (UserError 7) \<and>
   (\<exists>k'. run (replicate 3 0) (tree_of_three (KillAll 2)) =
          (tree_of_three (KillAll 2))
            \<lparr>threads := (threads (tree_of_three (KillAll 2)))[0 := Call (Kill 0) # k']\<rparr>) \<and>
   (\<exists>k'. run (replicate 3 0) (tree_of_three (CancelAll 2)) =
          (tree_of_three (CancelAll 2))
            \<lparr>threads := (threads (tree_of_three (CancelAll 2)))[0 := Call (Cancel 0) # k']\<rparr>) \<and>
   (\<exists>k'. run (replicate 3 0) (tree_of_three (CancelAllWithError 2 None)) =
          (tree_of_three (CancelAllWithError 2 None))
            \<lparr>threads := (threads (tree_of_three (CancelAllWithError 2 None)))
               [0 := Call (CancelWithError 0 None) # k']\<rparr>) \<and>
   (\<exists>k'. run (replicate 4 0) scenario_G =
          (upd 0 (\<lambda>x. x\<lparr>err := Some (UserError 7)\<rparr>) scenario_G)
            \<lparr>threads := (threads scenario_G)
               [0 := Call (Kill 0) #
                     Return (KillWithError 0 (Some (UserError 7))) (RetErr None) # k']\<rparr>) \<and>
   isDead (heap (run (replicate 5 0) scenario_G) 0) \<and>
   trace (run (replicate 5 0) scenario_G) = EvBegin 0 0 True # trace scenario_G \<and>
   (\<exists>k'. run (replicate 4 0) (tree_of_three (CancelAllWithError 2 None)) =
          (upd 0 (\<lambda>x. x\<lparr>err := None\<rparr>) (tree_of_three (CancelAllWithError 2 None)))
            \<lparr>threads := (threads (tree_of_three (CancelAllWithError 2 None)))
               [0 := Call (Cancel 0) # Return (CancelWithError 0 None) (RetErr None) # k']\<rparr>) \<and>
   trace (run (replicate 4 0) (tree_of_three (CancelAll 2))) =
     EvBegin 0 0 False # trace (tree_of_three (CancelAll 2)) \<and>
   parent (heap scenario_G_end 1) = Some 0 \<and> parent (heap scenario_G_end 2) = Some 1 \<and>
   err (heap scenario_G_end 1) = None \<and> err (heap scenario_G_end 2) = None \<and>
   err (heap scenario_G_end 0) = Some (UserError 7) \<and>
   done_ch (heap scenario_G_end 0) \<and> done_ch (heap scenario_G_end 1) \<and>
   done_ch (heap scenario_G_end 2) \<and> threads scenario_G_end = [[], [], []]"
proof -
  have sg: "scenario_G = run [0, 0, 0]
      (start [[NewRoot, ChildCascade 0, ChildCascade 1, KillAllWithError 2 (Some (UserError 7))]])"
    by (simp only: scenario_G_def tree_of_three_def)
  have a: "threads scenario_G ! 0 = Call (KillAllWithError 2 (Some (UserError 7))) # []"
    "0 < length (threads scenario_G)" "2 < nextc scenario_G" "\<not> panicked scenario_G"
    "0 = root_of (heap scenario_G) 2 2" "3 = Suc (depth_of (heap scenario_G) 2 2)"
    unfolding scenario_G_def tree_of_three_def by code_simp+
  have b: "err (heap scenario_G 0) = None" "err (heap scenario_G 1) = None"
    "err (heap scenario_G 2) = None" "depth_of (heap scenario_G) 2 2 = 2"
    "\<not> isDead (heap scenario_G 0)"
    unfolding scenario_G_def tree_of_three_def by code_simp+
  have e4: "Suc 3 = 4" and e5: "Suc (Suc 3) = 5" by simp_all
  note th = kill_all_acts_on_root[where k = "[]" and e = "Some (UserError 7)",
      OF sg a(2,3,4,5,6)]
  from th have p: "parent (heap scenario_G 0) = None" by blast
  from th a(1) have
    w: "(\<forall>d. d \<noteq> 0 \<longrightarrow> heap (run (replicate (Suc 3) 0) scenario_G) d = heap scenario_G d) \<and>
        err (heap (run (replicate (Suc 3) 0) scenario_G) 0) =
          (if err (heap scenario_G 0) = None then Some (UserError 7) else err (heap scenario_G 0))"
    by blast
  from w have w1: "heap (run (replicate 4 0) scenario_G) 1 = heap scenario_G 1"
    and w2: "heap (run (replicate 4 0) scenario_G) 2 = heap scenario_G 2"
    unfolding e4 by simp_all
  from w b(1) have w0: "err (heap (run (replicate 4 0) scenario_G) 0) = Some (UserError 7)"
    unfolding e4 by simp
  have a1: "threads scenario_G ! 0 =
      Call (if True then KillAllWithError 2 (Some (UserError 7))
            else CancelAllWithError 2 (Some (UserError 7))) # []"
    using a(1) by simp
  from th have "\<forall>b. threads scenario_G ! 0 =
        Call (if b then KillAllWithError 2 (Some (UserError 7))
              else CancelAllWithError 2 (Some (UserError 7))) # [] \<longrightarrow>
       (err (heap scenario_G 0) = None \<longrightarrow>
          (\<exists>k'. run (replicate (Suc 3) 0) scenario_G =
                  (upd 0 (\<lambda>x. x\<lparr>err := Some (UserError 7)\<rparr>) scenario_G)
                    \<lparr>threads := (threads scenario_G)
                       [0 := Call (if b then Kill 0 else Cancel 0) #
                             Return (if b then KillWithError 0 (Some (UserError 7))
                                     else CancelWithError 0 (Some (UserError 7)))
                               (RetErr None) # k']\<rparr> \<and>
                (\<not> isDead (heap scenario_G 0) \<longrightarrow>
                   threads (run (replicate (Suc (Suc 3)) 0) scenario_G) ! 0 =
                     Shutdown 0 b Fanout #
                     Return (if b then KillWithError 0 (Some (UserError 7))
                             else CancelWithError 0 (Some (UserError 7)))
                       (RetErr None) # k')) \<and>
          isDead (heap (run (replicate (Suc (Suc 3)) 0) scenario_G) 0) \<and>
          (\<not> isDead (heap scenario_G 0) \<longrightarrow>
             trace (run (replicate (Suc (Suc 3)) 0) scenario_G) =
               EvBegin 0 0 b # trace scenario_G))"
    by blast
  from this[rule_format, OF a1 b(1)] b(5) have
    g1: "\<exists>k'. run (replicate 4 0) scenario_G =
          (upd 0 (\<lambda>x. x\<lparr>err := Some (UserError 7)\<rparr>) scenario_G)
            \<lparr>threads := (threads scenario_G)
               [0 := Call (Kill 0) #
                     Return (KillWithError 0 (Some (UserError 7))) (RetErr None) # k']\<rparr>"
    and g2: "isDead (heap (run (replicate 5 0) scenario_G) 0)"
    and g3: "trace (run (replicate 5 0) scenario_G) = EvBegin 0 0 True # trace scenario_G"
    unfolding e4 e5 by auto
  have tw: "list_all (list_all tree_wide)
      [[NewRoot, ChildCascade 0, ChildCascade 1, KillAllWithError 2 (Some (UserError 7))]]"
    by simp
  have ge: "parent (heap scenario_G_end 1) = Some 0" "parent (heap scenario_G_end 2) = Some 1"
    "err (heap scenario_G_end 0) = Some (UserError 7)"
    "done_ch (heap scenario_G_end 0)" "done_ch (heap scenario_G_end 1)"
    "done_ch (heap scenario_G_end 2)" "threads scenario_G_end = [[], [], []]"
    unfolding scenario_G_end_def scenario_G_def tree_of_three_def by code_simp+
  from th tw have "\<forall>sched2 d. parent (heap (run sched2 scenario_G) d) \<noteq> None \<longrightarrow>
          err (heap (run sched2 scenario_G) d) = None" by blast
  then have "\<forall>d. parent (heap scenario_G_end d) \<noteq> None \<longrightarrow> err (heap scenario_G_end d) = None"
    unfolding scenario_G_end_def by blast
  then have ne: "err (heap scenario_G_end 1) = None" "err (heap scenario_G_end 2) = None"
    using ge(1,2) by simp_all
  have ka: "\<exists>k'. run (replicate 3 0) (tree_of_three (KillAll 2)) =
          (tree_of_three (KillAll 2))
            \<lparr>threads := (threads (tree_of_three (KillAll 2)))[0 := Call (Kill 0) # k']\<rparr>"
  proof -
    have f: "threads (tree_of_three (KillAll 2)) ! 0 = Call (KillAll 2) # []"
      "0 < length (threads (tree_of_three (KillAll 2)))" "2 < nextc (tree_of_three (KillAll 2))"
      "\<not> panicked (tree_of_three (KillAll 2))"
      "0 = root_of (heap (tree_of_three (KillAll 2))) 2 2"
      "3 = Suc (depth_of (heap (tree_of_three (KillAll 2))) 2 2)"
      unfolding tree_of_three_def by code_simp+
    from kill_all_acts_on_root[where k = "[]", OF tree_of_three_def f(2,3,4,5,6)] f(1)
    show ?thesis by blast
  qed
  have ca: "(\<exists>k'. run (replicate 3 0) (tree_of_three (CancelAll 2)) =
          (tree_of_three (CancelAll 2))
            \<lparr>threads := (threads (tree_of_three (CancelAll 2)))[0 := Call (Cancel 0) # k']\<rparr>) \<and>
     trace (run (replicate 4 0) (tree_of_three (CancelAll 2))) =
       EvBegin 0 0 False # trace (tree_of_three (CancelAll 2))"
  proof -
    have f: "threads (tree_of_three (CancelAll 2)) ! 0 = Call (CancelAll 2) # []"
      "0 < length (threads (tree_of_three (CancelAll 2)))"
      "2 < nextc (tree_of_three (CancelAll 2))"
      "\<not> panicked (tree_of_three (CancelAll 2))"
      "0 = root_of (heap (tree_of_three (CancelAll 2))) 2 2"
      "3 = Suc (depth_of (heap (tree_of_three (CancelAll 2))) 2 2)"
      "\<not> isDead (heap (tree_of_three (CancelAll 2)) 0)"
      unfolding tree_of_three_def by code_simp+
    note tc = kill_all_acts_on_root[where k = "[]", OF tree_of_three_def f(2,3,4,5,6)]
    from tc f(1) have 1: "\<exists>k'. run (replicate 3 0) (tree_of_three (CancelAll 2)) =
          (tree_of_three (CancelAll 2))
            \<lparr>threads := (threads (tree_of_three (CancelAll 2)))[0 := Call (Cancel 0) # k']\<rparr>"
      by blast
    have f1: "threads (tree_of_three (CancelAll 2)) ! 0 =
        Call (if False then KillAll 2 else CancelAll 2) # []" using f(1) by simp
    from tc have "\<forall>b. threads (tree_of_three (CancelAll 2)) ! 0 =
          Call (if b then KillAll 2 else CancelAll 2) # [] \<longrightarrow>
       (\<not> isDead (heap (tree_of_three (CancelAll 2)) 0) \<longrightarrow>
          (\<exists>k'. run (replicate (Suc 3) 0) (tree_of_three (CancelAll 2)) =
                  (log (EvBegin 0 0 b)
                     (upd 0 (\<lambda>x. x\<lparr>isDead := True\<rparr>) (tree_of_three (CancelAll 2))))
                    \<lparr>threads := (threads (tree_of_three (CancelAll 2)))
                       [0 := Shutdown 0 b Fanout # k']\<rparr>))"
      by blast
    from this[rule_format, OF f1 f(7)] obtain k' where
      "run (replicate 4 0) (tree_of_three (CancelAll 2)) =
          (log (EvBegin 0 0 False)
             (upd 0 (\<lambda>x. x\<lparr>isDead := True\<rparr>) (tree_of_three (CancelAll 2))))
            \<lparr>threads := (threads (tree_of_three (CancelAll 2)))
               [0 := Shutdown 0 False Fanout # k']\<rparr>"
      unfolding e4 by blast
    then have "trace (run (replicate 4 0) (tree_of_three (CancelAll 2))) =
       EvBegin 0 0 False # trace (tree_of_three (CancelAll 2))"
      by (simp add: log_def upd_def)
    then show ?thesis using 1 by blast
  qed
  have cw: "(\<exists>k'. run (replicate 3 0) (tree_of_three (CancelAllWithError 2 None)) =
          (tree_of_three (CancelAllWithError 2 None))
            \<lparr>threads := (threads (tree_of_three (CancelAllWithError 2 None)))
               [0 := Call (CancelWithError 0 None) # k']\<rparr>) \<and>
      (\<exists>k'. run (replicate 4 0) (tree_of_three (CancelAllWithError 2 None)) =
          (upd 0 (\<lambda>x. x\<lparr>err := None\<rparr>) (tree_of_three (CancelAllWithError 2 None)))
            \<lparr>threads := (threads (tree_of_three (CancelAllWithError 2 None)))
               [0 := Call (Cancel 0) # Return (CancelWithError 0 None) (RetErr None) # k']\<rparr>)"
  proof -
    have f: "threads (tree_of_three (CancelAllWithError 2 None)) ! 0 =
               Call (CancelAllWithError 2 None) # []"
      "0 < length (threads (tree_of_three (CancelAllWithError 2 None)))"
      "2 < nextc (tree_of_three (CancelAllWithError 2 None))"
      "\<not> panicked (tree_of_three (CancelAllWithError 2 None))"
      "0 = root_of (heap (tree_of_three (CancelAllWithError 2 None))) 2 2"
      "3 = Suc (depth_of (heap (tree_of_three (CancelAllWithError 2 None))) 2 2)"
      "err (heap (tree_of_three (CancelAllWithError 2 None)) 0) = None"
      unfolding tree_of_three_def by code_simp+
    note tc = kill_all_acts_on_root[where k = "[]" and e = None,
        OF tree_of_three_def f(2,3,4,5,6)]
    from tc f(1) have 1: "\<exists>k'. run (replicate 3 0) (tree_of_three (CancelAllWithError 2 None)) =
          (tree_of_three (CancelAllWithError 2 None))
            \<lparr>threads := (threads (tree_of_three (CancelAllWithError 2 None)))
               [0 := Call (CancelWithError 0 None) # k']\<rparr>"
      by blast
    have f1: "threads (tree_of_three (CancelAllWithError 2 None)) ! 0 =
        Call (if False then KillAllWithError 2 None else CancelAllWithError 2 None) # []"
      using f(1) by simp
    from tc have "\<forall>b. threads (tree_of_three (CancelAllWithError 2 None)) ! 0 =
          Call (if b then KillAllWithError 2 None else CancelAllWithError 2 None) # [] \<longrightarrow>
       (err (heap (tree_of_three (CancelAllWithError 2 None)) 0) = None \<longrightarrow>
          (\<exists>k'. run (replicate (Suc 3) 0) (tree_of_three (CancelAllWithError 2 None)) =
                  (upd 0 (\<lambda>x. x\<lparr>err := None\<rparr>) (tree_of_three (CancelAllWithError 2 None)))
                    \<lparr>threads := (threads (tree_of_three (CancelAllWithError 2 None)))
                       [0 := Call (if b then Kill 0 else Cancel 0) #
                             Return (if b then KillWithError 0 None else CancelWithError 0 None)
                               (RetErr None) # k']\<rparr>))"
      by blast
    from this[rule_format, OF f1 f(7)] have
      "\<exists>k'. run (replicate 4 0) (tree_of_three (CancelAllWithError 2 None)) =
          (upd 0 (\<lambda>x. x\<lparr>err := None\<rparr>) (tree_of_three (CancelAllWithError 2 None)))
            \<lparr>threads := (threads (tree_of_three (CancelAllWithError 2 None)))
               [0 := Call (Cancel 0) # Return (CancelWithError 0 None) (RetErr None) # k']\<rparr>"
      unfolding e4 by simp
    then show ?thesis using 1 by blast
  qed
  show ?thesis
    using a(1) a(5)[symmetric] b(2,3,4) p w0 w1 w2 ka ca cw g1 g2 g3 ge ne by simp
qed

text \<open>
  What \<open>cancelTrackedContexts\<close> does: the driver's step cancels every context that is in the
  map at that moment and leaves the map nil; in graceful mode \<open>runActions\<close> has run by then,
  and done is not raised yet.
\<close>

lemma foldr_cancel_tokens:
  "cancelled (tokens (foldr (\<lambda>kv. cancel_tok (snd kv)) m s) y) =
     (cancelled (tokens s y) \<or> y \<in> snd ` set m)"
  by (induction m) (auto simp: cancel_tok_def)

lemma tracked_contexts_cancelled_by_driver:
  assumes "s = run sched (start gs)" "t < length (threads s)" "\<not> panicked s"
    "threads s ! t = Shutdown c b CancelTracked # k" "trackedCtx (heap s c) = Some m"
    "(x, y) \<in> set m"
  shows "\<exists>s'. step t s = Some s' \<and> cancelled (tokens s' y) \<and> trackedCtx (heap s' c) = None \<and>
           (b \<longrightarrow> onceActions (heap s c)) \<and> \<not> done_ch (heap s c)"
proof -
  have "inv s" using assms(1) reach by simp
  then have p: "pcs_ok s" by (simp add: inv_def)
  have "Shutdown c b CancelTracked \<in> set (threads s ! t)" using assms(4) by simp
  from pcs_okD[OF p assms(2) this]
  have al: "c < nextc s" and o: "b \<longrightarrow> onceActions (heap s c)" and d: "\<not> done_ch (heap s c)"
    by auto
  have y: "y \<in> snd ` set m" using assms(6) by force
  have "step t s = Some ((cancelTrackedContexts c s)
          \<lparr>threads := (threads (cancelTrackedContexts c s))[t := [Shutdown c b Detach] @ k]\<rparr>)"
    using assms(2,3,4) al by (simp add: step_def)
  moreover have "cancelled (tokens (cancelTrackedContexts c s) y)"
    using assms(5) y by (simp add: cancelTrackedContexts_def upd_def foldr_cancel_tokens)
  moreover have "trackedCtx (heap (cancelTrackedContexts c s) c) = None"
    by (simp add: cancelTrackedContexts_def upd_def)
  ultimately show ?thesis using o d by simp
qed

text \<open>
  Claim C9. Every derived context recorded in \<open>trackedCtx\<close> is cancelled before the Cascade
  raises done, and in graceful mode the actions have completed before that cancellation.

  \<open>linkTrackedContext\<close> overwrites the entry of a key without cancelling the context it held.
  In \<open>context_race\<close> both goroutines found \<open>c.ctx == nil\<close>; token 1 was recorded under the key
  \<open>context.Background()\<close> and returned to goroutine 0, then token 2 replaced it in the map.
  \<open>cancelTrackedContexts\<close> cancelled token 2 only: done is raised and token 1 is not done.
\<close>

theorem overwritten_context_not_cancelled:
  "trace context_race =
     [EvReturn 2 (Kill 0) Void, EvDone 0, EvActions 0 [], EvDead 0, EvDying 0, EvBegin 2 0 True,
      EvReturn 1 (Context 0 None) (RetCtx 2), EvTracked 0 2,
      EvReturn 0 (Context 0 None) (RetCtx 1), EvTracked 0 1] \<and>
   done_ch (heap context_race 0) \<and> \<not> ctx_done context_race 1 \<and> ctx_done context_race 2 \<and>
   trackedCtx (heap context_race 0) = None"
  unfolding context_race_def by code_simp

text \<open>
  Claim C10. Once the driver of a Cascade has cleared the child set (the first thing
  \<open>closeAndClean\<close> does, before done is raised), every later \<open>ChildCascade\<close> on that Cascade
  panics on the nil map; \<open>ChildCascade\<close> is safe only before that point.

  In a reachable state \<open>s\<close>: \<open>children\<close> is nil once the driver of \<open>c\<close> is past the first step
  of \<open>closeAndClean\<close>, and when done is raised; a nil \<open>children\<close> stays nil in every
  continuation \<open>s2\<close>; and a \<open>ChildCascade\<close> on \<open>c\<close> in \<open>s2\<close> is a step that panics exactly when
  \<open>children\<close> is nil.
\<close>

theorem childCascade_panics_after_clear:
  assumes "s = run sched (start gs)" "s2 = run sched2 s" "c < nextc s"
    "t < length (threads s2)" "threads s2 ! t = Call (ChildCascade c) # k" "\<not> panicked s2"
  shows "(\<forall>t' b ph. t' < length (threads s) \<longrightarrow> Shutdown c b ph \<in> set (threads s ! t') \<longrightarrow>
            3 \<le> rank ph \<longrightarrow> children (heap s c) = None) \<and>
         (done_ch (heap s c) \<longrightarrow> children (heap s c) = None) \<and>
         (children (heap s c) = None \<longrightarrow> children (heap s2 c) = None) \<and>
         (\<exists>s3. step t s2 = Some s3 \<and> (panicked s3 \<longleftrightarrow> children (heap s2 c) = None))"
proof -
  have i: "inv s" using assms(1) reach by simp
  then have f: "flags_ok s" and p: "pcs_ok s" by (simp_all add: inv_def)
  have g: "grows s s2" using run_grows[OF i] assms(2) by simp
  have 1: "children (heap s c) = None"
    if "t' < length (threads s)" "Shutdown c b ph \<in> set (threads s ! t')" "3 \<le> rank ph" for t' b ph
  proof -
    from pcs_okD[OF p that(1,2)] show ?thesis using that(3) by simp
  qed
  have 2: "done_ch (heap s c) \<longrightarrow> children (heap s c) = None" using f by (auto simp: flags_ok_def)
  have 3: "children (heap s c) = None \<longrightarrow> children (heap s2 c) = None"
    using g assms(3) by (auto simp: grows_def)
  have "c < nextc s2" using g assms(3) by (auto simp: grows_def)
  from childCascade_step[OF assms(4,5) this assms(6)]
  have 4: "\<exists>s3. step t s2 = Some s3 \<and> (panicked s3 \<longleftrightarrow> children (heap s2 c) = None)" .
  show ?thesis using 1 2 3 4 by blast
qed

theorem childCascade_panics_after_clear_witness:
  "done_ch (heap killed_root 0) \<and> threads killed_root ! 0 = [Call (ChildCascade 0)] \<and>
   children (heap killed_root 0) = None \<and>
   (\<exists>s3. step 0 killed_root = Some s3 \<and> panicked s3) \<and>
   threads clearing_root = [[Shutdown 0 True CloseDying], [Call (ChildCascade 0)]] \<and>
   \<not> done_ch (heap clearing_root 0) \<and> children (heap clearing_root 0) = None \<and>
   (\<exists>s3. step 1 clearing_root = Some s3 \<and> panicked s3)"
proof -
  have a: "done_ch (heap killed_root 0)" "0 < nextc killed_root"
    "0 < length (threads killed_root)" "threads killed_root ! 0 = Call (ChildCascade 0) # []"
    "\<not> panicked killed_root"
    unfolding killed_root_def by code_simp+
  have r: "killed_root = run [] killed_root" by simp
  note 1 = childCascade_panics_after_clear[OF killed_root_def r a(2,3,4,5)]
  have b: "threads clearing_root = [[Shutdown 0 True CloseDying], [Call (ChildCascade 0)]]"
    "\<not> done_ch (heap clearing_root 0)" "0 < nextc clearing_root"
    "1 < length (threads clearing_root)" "threads clearing_root ! 1 = Call (ChildCascade 0) # []"
    "\<not> panicked clearing_root" "0 < length (threads clearing_root)"
    unfolding clearing_root_def by code_simp+
  have m: "Shutdown 0 True CloseDying \<in> set (threads clearing_root ! 0)" using b(1) by simp
  have r2: "clearing_root = run [] clearing_root" by simp
  note 2 = childCascade_panics_after_clear[OF clearing_root_def r2 b(3,4,5,6)]
  from 2 m b(7) have c: "children (heap clearing_root 0) = None"
    by (metis rank.simps(4) le_refl)
  from 1 a have k: "children (heap killed_root 0) = None" by blast
  show ?thesis using 1 2 a b c k by auto
qed

end
